theory Spec2Isabelle
  imports Main "HOL-Library.Extended_Nat"
begin

section \<open>Values and errors\<close>

text \<open>
  A distance is a float in the source: a finite number or \<open>inf\<close>.  The model keeps the
  finite values exact (integers, which may be negative: \<open>find_far_points_graph\<close> writes
  \<open>-1\<close> into a distance array) and has one value for \<open>+inf\<close>.  Rounding is not modelled.
\<close>

datatype dist = Fin int | PInf

instantiation dist :: linorder
begin

definition less_eq_dist :: "dist \<Rightarrow> dist \<Rightarrow> bool" where
  "less_eq_dist a b = (case b of PInf \<Rightarrow> True | Fin y \<Rightarrow> (case a of PInf \<Rightarrow> False | Fin x \<Rightarrow> x \<le> y))"

definition less_dist :: "dist \<Rightarrow> dist \<Rightarrow> bool" where
  "less_dist a b = (case a of PInf \<Rightarrow> False | Fin x \<Rightarrow> (case b of PInf \<Rightarrow> True | Fin y \<Rightarrow> x < y))"

instance
  by standard (auto simp: less_eq_dist_def less_dist_def split: dist.splits)

end

lemma dist_le_simps [simp]:
  "Fin x \<le> Fin y \<longleftrightarrow> x \<le> y" "d \<le> PInf" "PInf \<le> Fin y \<longleftrightarrow> False"
  by (auto simp: less_eq_dist_def split: dist.splits)

lemma dist_less_simps [simp]:
  "Fin x < Fin y \<longleftrightarrow> x < y" "Fin x < PInf" "PInf < d \<longleftrightarrow> False"
  by (auto simp: less_dist_def split: dist.splits)

text \<open>The exceptions of the source, with the messages it gives them.\<close>

datatype error = ValueError string | IndexError | TypeError | AssertionError

text \<open>
  A computation either raises, returns, or (value \<open>None\<close>) never returns: the last is
  what a \<open>while\<close> loop that follows a cyclic predecessor array does.
\<close>

type_synonym 'a res = "(error + 'a) option"

definition ok :: "'a \<Rightarrow> 'a res" where
  "ok x = Some (Inr x)"

definition raise :: "error \<Rightarrow> 'a res" where
  "raise e = Some (Inl e)"

definition rbind :: "'a res \<Rightarrow> ('a \<Rightarrow> 'b res) \<Rightarrow> 'b res" where
  "rbind m f = (case m of None \<Rightarrow> None | Some (Inl e) \<Rightarrow> Some (Inl e) | Some (Inr x) \<Rightarrow> f x)"

lemma rbind_simps [simp]:
  "rbind None f = None" "rbind (Some (Inl e)) f = Some (Inl e)" "rbind (Some (Inr x)) f = f x"
  "rbind (ok x) f = f x" "rbind (raise e) f = raise e"
  by (simp_all add: rbind_def ok_def raise_def)

lemma rbind_eq_ok:
  "rbind m f = Some (Inr y) \<longleftrightarrow> (\<exists>x. m = Some (Inr x) \<and> f x = Some (Inr y))"
  by (auto simp: rbind_def split: option.splits sum.splits)

section \<open>numpy indexing\<close>

text \<open>
  The position an integer index \<open>i\<close> selects in an array of length \<open>n\<close>: \<open>0 .. n-1\<close> select
  themselves, \<open>-n .. -1\<close> count from the end, anything else is out of range.
\<close>

definition np_index :: "nat \<Rightarrow> int \<Rightarrow> nat option" where
  "np_index n i =
     (if 0 \<le> i \<and> i < int n then Some (nat i)
      else if - int n \<le> i \<and> i < 0 then Some (nat (i + int n))
      else None)"

text \<open>\<open>a[i]\<close> and \<open>a[i] = x\<close>; IndexError when \<open>i\<close> is out of range.\<close>

definition np_get :: "'a list \<Rightarrow> int \<Rightarrow> error + 'a" where
  "np_get xs i = (case np_index (length xs) i of None \<Rightarrow> Inl IndexError | Some j \<Rightarrow> Inr (xs ! j))"

definition np_set :: "'a list \<Rightarrow> int \<Rightarrow> 'a \<Rightarrow> error + 'a list" where
  "np_set xs i x = (case np_index (length xs) i of None \<Rightarrow> Inl IndexError | Some j \<Rightarrow> Inr (xs[j := x]))"

text \<open>\<open>a[idx]\<close> for a list of integers \<open>idx\<close>.\<close>

fun np_take :: "'a list \<Rightarrow> int list \<Rightarrow> error + 'a list" where
  "np_take xs [] = Inr []"
| "np_take xs (i # is) =
     (case np_get xs i of Inl e \<Rightarrow> Inl e
      | Inr x \<Rightarrow> (case np_take xs is of Inl e \<Rightarrow> Inl e | Inr ys \<Rightarrow> Inr (x # ys)))"

text \<open>\<open>np.argmax\<close> and \<open>np.argmin\<close> of a one-dimensional array without NaN: the first index
  of the extremum.  An empty array raises ValueError.\<close>

fun argmax_from :: "dist list \<Rightarrow> nat \<Rightarrow> nat \<Rightarrow> dist \<Rightarrow> nat" where
  "argmax_from [] i j b = j"
| "argmax_from (x # xs) i j b = (if b < x then argmax_from xs (Suc i) i x else argmax_from xs (Suc i) j b)"

definition argmax :: "dist list \<Rightarrow> error + nat" where
  "argmax xs = (case xs of [] \<Rightarrow> Inl (ValueError ''attempt to get argmax of an empty sequence'')
                | x # ys \<Rightarrow> Inr (argmax_from ys 1 0 x))"

fun argmin_from :: "dist list \<Rightarrow> nat \<Rightarrow> nat \<Rightarrow> dist \<Rightarrow> nat" where
  "argmin_from [] i j b = j"
| "argmin_from (x # xs) i j b = (if x < b then argmin_from xs (Suc i) i x else argmin_from xs (Suc i) j b)"

definition argmin :: "dist list \<Rightarrow> error + nat" where
  "argmin xs = (case xs of [] \<Rightarrow> Inl (ValueError ''attempt to get argmin of an empty sequence'')
                | x # ys \<Rightarrow> Inr (argmin_from ys 1 0 x))"

section \<open>The graph\<close>

text \<open>
  A \<open>scipy.sparse.csr_matrix\<close> of shape \<open>nv \<times> nv\<close>: its stored entries \<open>(row, column, weight)\<close>.
\<close>

record csgraph =
  nv :: nat
  entries :: "(nat \<times> nat \<times> int) list"

subsection \<open>\<open>utils.create_spatial_csgraph\<close>\<close>

text \<open>An \<open>ndarray\<close>: its shape and its elements in row-major order.\<close>

datatype 'a ndarray = NDArray (shape: "nat list") (flat: "'a list")

definition ndim :: "'a ndarray \<Rightarrow> nat" where
  "ndim a = length (shape a)"

text \<open>The rows of a two-dimensional array.\<close>

fun chunks :: "nat \<Rightarrow> nat \<Rightarrow> 'a list \<Rightarrow> 'a list list" where
  "chunks 0 k xs = []"
| "chunks (Suc m) k xs = take k xs # chunks m k (drop k xs)"

definition rows :: "'a ndarray \<Rightarrow> 'a list list" where
  "rows a = chunks (shape a ! 0) (shape a ! 1) (flat a)"

text \<open>\<open>edges[edges[:, 0] != edges[:, 1]]\<close>, on the rows of an \<open>M \<times> 2\<close> array.\<close>

definition drop_self_loops :: "int list list \<Rightarrow> int list list" where
  "drop_self_loops es = filter (\<lambda>e. e ! 0 \<noteq> e ! 1) es"

text \<open>The constructor \<open>csr_matrix((weights, (row, col)), shape=[N, N])\<close>: an index outside
  \<open>0..N-1\<close> raises ValueError, entries at the same position are summed.\<close>

fun coo_add :: "nat \<times> nat \<times> int \<Rightarrow> (nat \<times> nat \<times> int) list \<Rightarrow> (nat \<times> nat \<times> int) list" where
  "coo_add (r, c, w) [] = [(r, c, w)]"
| "coo_add (r, c, w) ((r', c', w') # es) =
     (if r = r' \<and> c = c' then (r', c', w' + w) # es else (r', c', w') # coo_add (r, c, w) es)"

definition csr_matrix :: "nat \<Rightarrow> (int \<times> int \<times> int) list \<Rightarrow> error + csgraph" where
  "csr_matrix N coo =
     (if list_ex (\<lambda>(r, c, w). r < 0 \<or> c < 0) coo then Inl (ValueError ''negative index found'')
      else if list_ex (\<lambda>(r, c, w). int N \<le> r \<or> int N \<le> c) coo
        then Inl (ValueError ''index exceeds matrix dimensions'')
      else Inr \<lparr>nv = N, entries = fold coo_add (map (\<lambda>(r, c, w). (nat r, nat c, w)) coo) []\<rparr>)"

text \<open>
  \<open>linalg_norm\<close> stands for \<open>np.linalg.norm\<close> of a coordinate difference (a floating-point square
  root in the source, a parameter here).
\<close>

definition edge_weights ::
  "(int list \<Rightarrow> int) \<Rightarrow> int list list \<Rightarrow> int list list \<Rightarrow> bool \<Rightarrow> error + int list" where
  "edge_weights linalg_norm vs es euclidean_weight =
     (if euclidean_weight then
        (case np_take vs (map (\<lambda>e. e ! 0) es) of Inl e \<Rightarrow> Inl e
         | Inr xs \<Rightarrow> (case np_take vs (map (\<lambda>e. e ! 1) es) of Inl e \<Rightarrow> Inl e
         | Inr ys \<Rightarrow> Inr (map2 (\<lambda>x y. linalg_norm (map2 (-) x y)) xs ys)))
      else Inr (map (\<lambda>e. 1) es))"

definition create_spatial_csgraph ::
  "(int list \<Rightarrow> int) \<Rightarrow> int ndarray \<Rightarrow> int ndarray \<Rightarrow> bool \<Rightarrow> bool \<Rightarrow> error + csgraph" where
  "create_spatial_csgraph linalg_norm vertices edges euclidean_weight directed =
     (if ndim vertices \<noteq> 2 \<or> shape vertices ! 1 < 1
        then Inl (ValueError ''vertices must be a NxK array with K > 0'')
      else if ndim edges \<noteq> 2 \<or> shape edges ! 1 \<noteq> 2
        then Inl (ValueError ''edges must be a Mx2 array'')
      else
        let es = drop_self_loops (rows edges) in
        (case edge_weights linalg_norm (rows vertices) es euclidean_weight of Inl e \<Rightarrow> Inl e
         | Inr weights \<Rightarrow>
            let fwd = map2 (\<lambda>e w. (e ! 0, e ! 1, w)) es weights;
                bwd = map2 (\<lambda>e w. (e ! 1, e ! 0, w)) es weights
            in csr_matrix (shape vertices ! 0) (if directed then fwd else fwd @ bwd)))"

section \<open>Shortest paths: \<open>scipy.sparse.csgraph.dijkstra\<close>\<close>

text \<open>
  The search is library code outside the repository.  It is a parameter \<open>orc\<close> of the
  model: given the graph, the source vertices and the distance limit it returns the
  distance array, the predecessor array and the array of nearest sources (the sentinel of
  the last two is \<open>-9999\<close>), or raises.  Every call of the source is undirected
  (\<open>directed=False\<close>).  A call with one source index is the call with the one-element list;
  a call with a list of sources is the \<open>min_only=True\<close> call.  \<open>dijkstra\<close> writes out the
  argument checks the library makes before it searches: negative indices count from the
  end, an index out of range and a negative limit raise ValueError.
\<close>

type_synonym sp_result = "dist list \<times> int list \<times> int list"

type_synonym search = "csgraph \<Rightarrow> nat list \<Rightarrow> dist \<Rightarrow> error + sp_result"

definition dijkstra :: "search \<Rightarrow> csgraph \<Rightarrow> int list \<Rightarrow> dist \<Rightarrow> error + sp_result" where
  "dijkstra orc G indices limit =
     (let N = int (nv G); idx = map (\<lambda>i. if i < 0 then i + N else i) indices
      in if list_ex (\<lambda>i. i < 0 \<or> N \<le> i) idx then Inl (ValueError ''indices out of range 0...N'')
         else if limit < Fin 0 then Inl (ValueError ''limit must be >= 0'')
         else orc G (map nat idx) limit)"

section \<open>\<open>find_root.py\<close>\<close>

text \<open>\<open>np.where(valid)[0][0]\<close>: the first index that holds True; IndexError when there is none.\<close>

fun first_true_from :: "bool list \<Rightarrow> nat \<Rightarrow> error + nat" where
  "first_true_from [] i = Inl IndexError"
| "first_true_from (b # bs) i = (if b then Inr i else first_true_from bs (Suc i))"

text \<open>\<open>a[mask] = x\<close> for a boolean mask, which must have the length of \<open>a\<close>.\<close>

definition mask_assign :: "'a list \<Rightarrow> bool list \<Rightarrow> 'a \<Rightarrow> error + 'a list" where
  "mask_assign xs m x =
     (if length m \<noteq> length xs then Inl IndexError else Inr (map2 (\<lambda>d b. if b then x else d) xs m))"

text \<open>
  The variables of the loop of \<open>find_far_points_graph\<close>; \<open>best_pred\<close> is its \<open>pred\<close> and
  \<open>queries\<close> its counter \<open>k\<close>.
\<close>

record far_state =
  best_root :: int
  current_root :: int
  max_observed_distance :: dist
  best_pred :: "int list option"
  dist_to_root :: "dist list option"
  queries :: nat

partial_function (option) far_loop :: "search \<Rightarrow> csgraph \<Rightarrow> bool list \<Rightarrow> far_state \<Rightarrow> far_state res" where
  "far_loop orc G valid_mask st =
     (case dijkstra orc G [current_root st] PInf of Inl e \<Rightarrow> Some (Inl e)
      | Inr (dist0, predn, srcs) \<Rightarrow>
          (case mask_assign dist0 (map Not valid_mask) (Fin (- 1)) of Inl e \<Rightarrow> Some (Inl e)
           | Inr dist_to_current \<Rightarrow>
               (case argmax dist_to_current of Inl e \<Rightarrow> Some (Inl e)
                | Inr far_from_current \<Rightarrow>
                    if max_observed_distance st < dist_to_current ! far_from_current
                    then far_loop orc G valid_mask
                           \<lparr>best_root = current_root st, current_root = int far_from_current,
                            max_observed_distance = dist_to_current ! far_from_current,
                            best_pred = Some predn, dist_to_root = Some dist_to_current,
                            queries = Suc (queries st)\<rparr>
                    else Some (Inr (st\<lparr>queries := Suc (queries st)\<rparr>)))))"

declare far_loop.simps [code]

text \<open>The loop from its initial variables; the final variables are returned with the counter.\<close>

definition far_points_run :: "search \<Rightarrow> csgraph \<Rightarrow> bool list option \<Rightarrow> far_state res" where
  "far_points_run orc G valid_opt =
     rbind (case valid_opt of None \<Rightarrow> ok (replicate (nv G) True, 0)
            | Some v \<Rightarrow> (case first_true_from v 0 of Inl e \<Rightarrow> raise e | Inr i \<Rightarrow> ok (v, int i)))
       (\<lambda>(valid_mask, start). far_loop orc G valid_mask
           \<lparr>best_root = start, current_root = start, max_observed_distance = Fin 0,
            best_pred = None, dist_to_root = None, queries = 0\<rparr>)"

definition find_far_points_graph ::
  "search \<Rightarrow> csgraph \<Rightarrow> bool list option \<Rightarrow> (int \<times> int \<times> int list option \<times> dist \<times> dist list option) res" where
  "find_far_points_graph orc G valid_opt =
     rbind (far_points_run orc G valid_opt)
       (\<lambda>st. ok (best_root st, current_root st, best_pred st, max_observed_distance st, dist_to_root st))"

text \<open>
  \<open>find_graph_root\<close>.  \<open>largest_cc\<close> stands for \<open>connected_component_slice(mesh_graph,
  return_boolean=True)\<close>, which rests on the library's connected-components labelling.
\<close>

type_synonym root_result = "int \<times> int list option \<times> dist list option \<times> bool list"

definition find_graph_root ::
  "(csgraph \<Rightarrow> bool list) \<Rightarrow> search \<Rightarrow> csgraph \<Rightarrow> bool list option \<Rightarrow> root_result res" where
  "find_graph_root largest_cc orc G valid_opt =
     (let valid_mask = (case valid_opt of None \<Rightarrow> largest_cc G | Some v \<Rightarrow> v)
      in rbind (find_far_points_graph orc G (Some valid_mask))
           (\<lambda>(best, far, pred, d, dist_to_best). ok (best, pred, dist_to_best, valid_mask)))"

section \<open>\<open>utils.get_path\<close>\<close>

partial_function (option) get_path_loop :: "int \<Rightarrow> int list \<Rightarrow> int \<Rightarrow> int list \<Rightarrow> int list res" where
  "get_path_loop root_v pred p path =
     (if p \<noteq> root_v
      then (case np_get pred p of Inl e \<Rightarrow> Some (Inl e)
            | Inr q \<Rightarrow> get_path_loop root_v pred q (path @ [q]))
      else Some (Inr path))"

declare get_path_loop.simps [code]

definition get_path :: "int \<Rightarrow> int \<Rightarrow> int list \<Rightarrow> int list res" where
  "get_path root_v target pred = rbind (get_path_loop root_v pred target [target]) (\<lambda>path. ok (rev path))"

section \<open>\<open>graph_teasar_component\<close>\<close>

text \<open>
  The variables the loop changes.  The two map arrays exist in the source only when
  \<open>return_map\<close> is set; here they are always there and stay untouched otherwise.
\<close>

record teasar_state =
  valid :: "bool list"
  visited_nodes :: "int list"
  paths :: "int list list"
  path_lengths :: "dist list"
  mesh_to_skeleton_dist :: "dist list"
  mesh_to_skeleton_map :: "int option list"

text \<open>
  \<open>root_ds * valid\<close>: a valid entry keeps its distance, a finite entry that is not valid
  becomes zero, and \<open>inf * 0\<close> is NaN (here \<open>None\<close>).
\<close>

definition masked :: "dist list \<Rightarrow> bool list \<Rightarrow> dist option list" where
  "masked root_ds valid_mask =
     map2 (\<lambda>d b. if b then Some d else (case d of Fin x \<Rightarrow> Some (Fin 0) | PInf \<Rightarrow> None)) root_ds valid_mask"

text \<open>\<open>np.nanargmax\<close>: the first index of the maximum among the entries that are not NaN.\<close>

fun nanargmax_from :: "dist option list \<Rightarrow> nat \<Rightarrow> (nat \<times> dist) option \<Rightarrow> (nat \<times> dist) option" where
  "nanargmax_from [] i best = best"
| "nanargmax_from (x # xs) i best =
     nanargmax_from xs (Suc i)
       (case x of None \<Rightarrow> best
        | Some d \<Rightarrow> (case best of None \<Rightarrow> Some (i, d)
                     | Some (j, b) \<Rightarrow> if b < d then Some (i, d) else best))"

definition nanargmax :: "dist option list \<Rightarrow> error + nat" where
  "nanargmax xs = (case nanargmax_from xs 0 None of
                     None \<Rightarrow> Inl (ValueError ''All-NaN slice encountered'')
                   | Some (j, b) \<Rightarrow> Inr j)"

text \<open>Lines 124 to 126: the next target.\<close>

definition select_target :: "dist list \<Rightarrow> bool list \<Rightarrow> error + nat" where
  "select_target root_ds valid_mask =
     (if length root_ds \<noteq> length valid_mask
      then Inl (ValueError ''operands could not be broadcast together'')
      else (case nanargmax (masked root_ds valid_mask) of Inl e \<Rightarrow> Inl e
            | Inr target \<Rightarrow>
                if root_ds ! target = PInf then Inl (ValueError ''target cannot be reached'')
                else Inr target))"

text \<open>Lines 137 to 139: up the predecessors of the root until a visited vertex.\<close>

partial_function (option) find_max_branch :: "int list option \<Rightarrow> int list \<Rightarrow> int \<Rightarrow> int res" where
  "find_max_branch root_pred visited max_branch =
     (if max_branch \<in> set visited then Some (Inr max_branch)
      else (case root_pred of None \<Rightarrow> Some (Inl TypeError)
            | Some rp \<Rightarrow> (case np_get rp max_branch of Inl e \<Rightarrow> Some (Inl e)
                          | Inr p \<Rightarrow> find_max_branch root_pred visited p)))"

declare find_max_branch.simps [code]

text \<open>
  Line 140.  The target's distance is finite here.  A difference \<open>-inf\<close> is not a value of
  \<open>dist\<close>: it is what \<open>dijkstra\<close> refuses as a limit, so its ValueError is raised at once.
\<close>

definition max_path_length :: "dist list \<Rightarrow> nat \<Rightarrow> int \<Rightarrow> error + dist" where
  "max_path_length root_ds target max_branch =
     (case np_get root_ds max_branch of Inl e \<Rightarrow> Inl e
      | Inr db \<Rightarrow>
          (case root_ds ! target of PInf \<Rightarrow> Inr PInf
           | Fin a \<Rightarrow> (case db of Fin b \<Rightarrow> Inr (Fin (a - b))
                       | PInf \<Rightarrow> Inl (ValueError ''limit must be >= 0''))))"

text \<open>Lines 155 to 157: the visited vertex nearest to the target.\<close>

definition closest_visited :: "dist list \<Rightarrow> int list \<Rightarrow> error + int" where
  "closest_visited ds visited =
     (case np_take ds visited of Inl e \<Rightarrow> Inl e
      | Inr dv \<Rightarrow> (case argmin dv of Inl e \<Rightarrow> Inl e | Inr min_node \<Rightarrow> Inr (visited ! min_node)))"

text \<open>Lines 189 to 206: the map arrays and the mask after a sweep with distances \<open>dm\<close>.\<close>

definition new_sources_closer :: "dist \<Rightarrow> dist \<Rightarrow> bool" where
  "new_sources_closer d old \<longleftrightarrow> d \<noteq> PInf \<and> d < old"

definition update_dist :: "dist list \<Rightarrow> dist list \<Rightarrow> dist list" where
  "update_dist dm msd = map2 (\<lambda>d old. if new_sources_closer d old then d else old) dm msd"

definition update_map :: "dist list \<Rightarrow> int list \<Rightarrow> dist list \<Rightarrow> int option list \<Rightarrow> int option list" where
  "update_map dm sources msd msm =
     map2 (\<lambda>(d, s) (old, m). if new_sources_closer d old then Some s else m) (zip dm sources) (zip msd msm)"

definition invalidate :: "bool list \<Rightarrow> dist list \<Rightarrow> bool list" where
  "invalidate valid_mask dm = map2 (\<lambda>b d. if d \<noteq> PInf then False else b) valid_mask dm"

text \<open>One pass through the body of the \<open>while\<close> loop (lines 120 to 210).\<close>

definition teasar_iteration ::
  "search \<Rightarrow> csgraph \<Rightarrow> dist list \<Rightarrow> int list option \<Rightarrow> dist \<Rightarrow> bool \<Rightarrow> teasar_state \<Rightarrow> teasar_state res" where
  "teasar_iteration orc G root_ds root_pred invalidation_d return_map st =
     rbind (Some (select_target root_ds (valid st))) (\<lambda>target.
     rbind (find_max_branch root_pred (visited_nodes st) (int target)) (\<lambda>max_branch.
     rbind (Some (max_path_length root_ds target max_branch)) (\<lambda>limit.
     rbind (Some (dijkstra orc G [int target] limit)) (\<lambda>(ds, pred_t, srcs_t).
     rbind (Some (closest_visited ds (visited_nodes st))) (\<lambda>branch.
     rbind (get_path (int target) branch pred_t) (\<lambda>path.
     rbind (Some (np_get ds branch)) (\<lambda>d_branch.
     if d_branch = PInf then raise AssertionError else
     rbind (Some (dijkstra orc G path invalidation_d)) (\<lambda>(dm, pred_m, sources).
     if length dm \<noteq> length (valid st) \<or> (return_map \<and> length sources \<noteq> length dm) then raise IndexError else
     ok \<lparr>valid = invalidate (valid st) dm,
         visited_nodes = visited_nodes st @ butlast path,
         paths = paths st @ [path],
         path_lengths = path_lengths st @ [d_branch],
         mesh_to_skeleton_dist =
           (if return_map then update_dist dm (mesh_to_skeleton_dist st) else mesh_to_skeleton_dist st),
         mesh_to_skeleton_map =
           (if return_map then update_map dm sources (mesh_to_skeleton_dist st) (mesh_to_skeleton_map st)
            else mesh_to_skeleton_map st)\<rparr>))))))))"

text \<open>The loop: \<open>while np.sum(valid) > 0\<close>.\<close>

partial_function (option) teasar_loop ::
  "search \<Rightarrow> csgraph \<Rightarrow> dist list \<Rightarrow> int list option \<Rightarrow> dist \<Rightarrow> bool \<Rightarrow> teasar_state \<Rightarrow> teasar_state res" where
  "teasar_loop orc G root_ds root_pred invalidation_d return_map st =
     (if list_ex id (valid st)
      then (case teasar_iteration orc G root_ds root_pred invalidation_d return_map st of
              None \<Rightarrow> None
            | Some (Inl e) \<Rightarrow> Some (Inl e)
            | Some (Inr st') \<Rightarrow> teasar_loop orc G root_ds root_pred invalidation_d return_map st')
      else Some (Inr st))"

declare teasar_loop.simps [code]

text \<open>
  Lines 71 to 108: the root, its arrays, the mask and the checks on them; the result is the
  distance and predecessor arrays of the root and the variables the loop starts from.
  \<open>find_root_func\<close> is the root finder the caller passes.
\<close>

type_synonym root_func = "csgraph \<Rightarrow> bool list option \<Rightarrow> root_result res"

definition teasar_prelude ::
  "search \<Rightarrow> root_func \<Rightarrow> csgraph \<Rightarrow> int option \<Rightarrow> bool list option \<Rightarrow> dist list option \<Rightarrow> int list option
     \<Rightarrow> (dist list \<times> int list option \<times> teasar_state) res" where
  "teasar_prelude orc find_root_func G root_opt valid_opt root_ds_opt root_pred_opt =
     (let n_vertices = nv G in
      rbind (case root_opt of
               None \<Rightarrow> rbind (find_root_func G valid_opt) (\<lambda>(r, rp, rd, v). ok (r, rp, rd, Some v))
             | Some r \<Rightarrow> ok (r, root_pred_opt, root_ds_opt, valid_opt)) (\<lambda>(root_v, root_pred1, root_ds1, valid1).
      rbind (case root_ds1 of
               None \<Rightarrow> rbind (Some (dijkstra orc G [root_v] PInf)) (\<lambda>(ds, pr, srcs). ok (ds, Some pr))
             | Some ds \<Rightarrow> ok (ds, root_pred1)) (\<lambda>(root_ds, root_pred).
      rbind (case valid1 of
               None \<Rightarrow> Some (np_set (replicate n_vertices True) root_v False)
             | Some v \<Rightarrow> if length v \<noteq> n_vertices
                         then raise (ValueError ''valid must be length of vertices'') else ok v) (\<lambda>valid0.
      if length root_ds \<noteq> length valid0 then raise (ValueError ''operands could not be broadcast together'')
      else if list_ex (\<lambda>(d, b). d = PInf \<and> b) (zip root_ds valid0)
        then raise (ValueError ''all valid vertices should be reachable from root'')
      else ok (root_ds, root_pred,
               \<lparr>valid = valid0, visited_nodes = [root_v], paths = [], path_lengths = [],
                mesh_to_skeleton_dist = replicate n_vertices PInf,
                mesh_to_skeleton_map = replicate n_vertices None\<rparr>)))))"

definition graph_teasar_component ::
  "search \<Rightarrow> root_func \<Rightarrow> csgraph \<Rightarrow> int option \<Rightarrow> bool list option \<Rightarrow> dist list option \<Rightarrow> int list option
     \<Rightarrow> dist \<Rightarrow> bool \<Rightarrow> (int list list \<times> dist list \<times> int option list option) res" where
  "graph_teasar_component orc find_root_func G root_opt valid_opt root_ds_opt root_pred_opt invalidation_d return_map =
     rbind (teasar_prelude orc find_root_func G root_opt valid_opt root_ds_opt root_pred_opt)
       (\<lambda>(root_ds, root_pred, st0).
     rbind (teasar_loop orc G root_ds root_pred invalidation_d return_map st0) (\<lambda>st.
     ok (paths st, path_lengths st, if return_map then Some (mesh_to_skeleton_map st) else None)))"

section \<open>Distances in the graph\<close>

text \<open>
  What the claims mean by an edge, a distance and a shortest-path distance.  The graph is
  read undirected: an entry \<open>(u, v, w)\<close> joins \<open>u\<close> and \<open>v\<close> at cost \<open>w\<close> in both directions.
\<close>

definition wf_graph :: "csgraph \<Rightarrow> bool" where
  "wf_graph G \<longleftrightarrow> list_all (\<lambda>(u, v, w). u < nv G \<and> v < nv G \<and> 0 \<le> w) (entries G)"

definition positive_weights :: "csgraph \<Rightarrow> bool" where
  "positive_weights G \<longleftrightarrow> list_all (\<lambda>(u, v, w). 0 < w) (entries G)"

definition arcs :: "csgraph \<Rightarrow> (nat \<times> nat \<times> int) list" where
  "arcs G = entries G @ map (\<lambda>(u, v, w). (v, u, w)) (entries G)"

definition edge :: "csgraph \<Rightarrow> nat \<Rightarrow> nat \<Rightarrow> int \<Rightarrow> bool" where
  "edge G u v w \<longleftrightarrow> u < nv G \<and> v < nv G \<and> (u, v, w) \<in> set (arcs G)"

text \<open>\<open>walk G s v c\<close>: some walk from \<open>s\<close> to \<open>v\<close> costs \<open>c\<close>.\<close>

inductive walk :: "csgraph \<Rightarrow> nat \<Rightarrow> nat \<Rightarrow> int \<Rightarrow> bool" for G :: csgraph and s :: nat where
  walk_refl: "s < nv G \<Longrightarrow> walk G s s 0"
| walk_step: "walk G s u c \<Longrightarrow> edge G u v w \<Longrightarrow> walk G s v (c + w)"

text \<open>\<open>d\<close> is the distance of \<open>v\<close> from the nearest vertex of \<open>S\<close>: a walk attains it and none is
  shorter.\<close>

definition sp_dist :: "csgraph \<Rightarrow> nat set \<Rightarrow> nat \<Rightarrow> int \<Rightarrow> bool" where
  "sp_dist G S v d \<longleftrightarrow> (\<exists>s\<in>S. walk G s v d) \<and> (\<forall>s\<in>S. \<forall>c. walk G s v c \<longrightarrow> d \<le> c)"

text \<open>
  What the source relies on from a search from the sources \<open>S\<close> with limit \<open>lmt\<close>: the arrays
  have one entry per vertex; a distance is finite exactly when the vertex is within the
  limit, and is then exact; a reached vertex other than a source has as predecessor a
  neighbour one edge nearer, the predecessors lead back to a source, and sources and
  unreached vertices have the sentinel; each reached vertex is attributed to a source at
  that distance.
\<close>

definition exact_result :: "csgraph \<Rightarrow> nat list \<Rightarrow> dist \<Rightarrow> sp_result \<Rightarrow> bool" where
  "exact_result G S lmt res \<longleftrightarrow> (case res of (ds, pr, so) \<Rightarrow>
     length ds = nv G \<and> length pr = nv G \<and> length so = nv G \<and>
     (\<forall>v<nv G. \<forall>d. ds ! v = Fin d \<longleftrightarrow> sp_dist G (set S) v d \<and> Fin d \<le> lmt) \<and>
     (\<forall>v<nv G. v \<in> set S \<or> ds ! v = PInf \<longrightarrow> pr ! v = - 9999) \<and>
     (\<forall>v<nv G. \<forall>d. ds ! v = Fin d \<and> v \<notin> set S \<longrightarrow>
        (\<exists>u w du. pr ! v = int u \<and> edge G u v w \<and> ds ! u = Fin du \<and> du + w = d)) \<and>
     (\<exists>rank :: nat \<Rightarrow> nat. \<forall>v<nv G. ds ! v \<noteq> PInf \<and> v \<notin> set S \<longrightarrow> rank (nat (pr ! v)) < rank v) \<and>
     (\<forall>v<nv G. \<forall>d. ds ! v = Fin d \<longrightarrow> (\<exists>s\<in>set S. so ! v = int s \<and> walk G s v d)) \<and>
     (\<forall>v<nv G. ds ! v = PInf \<longrightarrow> so ! v = - 9999))"

definition exact_search :: "csgraph \<Rightarrow> search \<Rightarrow> bool" where
  "exact_search G orc \<longleftrightarrow>
     (\<forall>S lmt. S \<noteq> [] \<and> set S \<subseteq> {..<nv G} \<and> Fin 0 \<le> lmt \<longrightarrow>
        (\<exists>res. orc G S lmt = Inr res \<and> exact_result G S lmt res))"

text \<open>The states the loop passes through from \<open>st0\<close>.\<close>

inductive reachable ::
  "search \<Rightarrow> csgraph \<Rightarrow> dist list \<Rightarrow> int list option \<Rightarrow> dist \<Rightarrow> bool \<Rightarrow> teasar_state \<Rightarrow> teasar_state \<Rightarrow> bool"
  for orc G root_ds root_pred invalidation_d return_map st0 where
  reach_init: "reachable orc G root_ds root_pred invalidation_d return_map st0 st0"
| reach_step: "reachable orc G root_ds root_pred invalidation_d return_map st0 st \<Longrightarrow>
     list_ex id (valid st) \<Longrightarrow>
     teasar_iteration orc G root_ds root_pred invalidation_d return_map st = Some (Inr st') \<Longrightarrow>
     reachable orc G root_ds root_pred invalidation_d return_map st0 st'"

section \<open>A search to run the model with\<close>

text \<open>
  An executable search that meets \<open>exact_search\<close> on graphs with positive weights: edges
  are relaxed until nothing changes.  It is used to evaluate the model on concrete graphs.
\<close>

definition relax :: "nat \<times> nat \<times> int \<Rightarrow> enat list \<Rightarrow> enat list" where
  "relax a D = (case a of (u, v, w) \<Rightarrow>
     if u < length D \<and> v < length D then D[v := min (D ! v) (D ! u + enat (nat w))] else D)"

definition sweep :: "csgraph \<Rightarrow> enat list \<Rightarrow> enat list" where
  "sweep G D = fold relax (arcs G) D"

definition n_inf :: "enat list \<Rightarrow> nat" where
  "n_inf D = length (filter (\<lambda>x. x = \<infinity>) D)"

definition fin_sum :: "enat list \<Rightarrow> nat" where
  "fin_sum D = sum_list (map (\<lambda>x. case x of enat n \<Rightarrow> n | \<infinity> \<Rightarrow> 0) D)"

lemma relax_le: "list_all2 (\<le>) (relax a D) D"
proof (cases a)
  case (fields u v w)
  show ?thesis
    unfolding relax_def fields
    by (auto simp: list_all2_conv_all_nth nth_list_update)
qed

lemma fold_relax_le: "list_all2 (\<le>) (fold relax as D) D"
proof (induction as arbitrary: D)
  case Nil
  show ?case by (simp add: list_all2_conv_all_nth)
next
  case (Cons a as)
  have "list_all2 (\<le>) (fold relax as (relax a D)) (relax a D)"
    by (rule Cons.IH)
  moreover have "list_all2 (\<le>) (relax a D) D"
    by (rule relax_le)
  ultimately have "list_all2 (\<le>) (fold relax as (relax a D)) D"
    by (rule list_all2_trans [rotated]) simp
  then show ?case by simp
qed

lemma pointwise_measure:
  "list_all2 (\<le>) D' D \<Longrightarrow>
     n_inf D' \<le> n_inf D \<and>
     (n_inf D' = n_inf D \<longrightarrow> fin_sum D' \<le> fin_sum D \<and> (D' \<noteq> D \<longrightarrow> fin_sum D' < fin_sum D))"
proof (induction rule: list_all2_induct)
  case Nil
  show ?case by (simp add: n_inf_def fin_sum_def)
next
  case (Cons x xs y ys)
  show ?case
  proof (cases x)
    case xa: (enat a)
    show ?thesis
    proof (cases y)
      case (enat b)
      with xa Cons show ?thesis
        by (auto simp: n_inf_def fin_sum_def)
    next
      case infinity
      with xa Cons show ?thesis
        by (auto simp: n_inf_def fin_sum_def)
    qed
  next
    case infinity
    with Cons have "y = \<infinity>" by simp
    with infinity Cons show ?thesis
      by (auto simp: n_inf_def fin_sum_def)
  qed
qed

lemma sweep_decreases:
  "sweep G D \<noteq> D \<Longrightarrow>
     n_inf (sweep G D) < n_inf D \<or> (n_inf (sweep G D) = n_inf D \<and> fin_sum (sweep G D) < fin_sum D)"
  using pointwise_measure [OF fold_relax_le, of "arcs G" D]
  unfolding sweep_def by (cases "n_inf (fold relax (arcs G) D) = n_inf D") auto

function bf_iterate :: "csgraph \<Rightarrow> enat list \<Rightarrow> enat list" where
  "bf_iterate G D = (let D' = sweep G D in if D' = D then D else bf_iterate G D')"
  by pat_completeness auto
termination
proof (relation "inv_image (less_than <*lex*> less_than) (\<lambda>(G, D). (n_inf D, fin_sum D))")
  show "wf (inv_image (less_than <*lex*> less_than) (\<lambda>(G, D). (n_inf D, fin_sum D)))"
    by (intro wf_inv_image wf_lex_prod wf_less_than)
next
  fix G :: csgraph and D D' :: "enat list"
  assume "D' = sweep G D" "D' \<noteq> D"
  with sweep_decreases [of G D]
  show "((G, D'), (G, D)) \<in> inv_image (less_than <*lex*> less_than) (\<lambda>(G, D). (n_inf D, fin_sum D))"
    by auto
qed

definition bf_dist :: "csgraph \<Rightarrow> nat list \<Rightarrow> enat list" where
  "bf_dist G S = bf_iterate G (map (\<lambda>v. if v \<in> set S then 0 else \<infinity>) [0..<nv G])"

definition clip :: "dist \<Rightarrow> enat \<Rightarrow> dist" where
  "clip lmt x = (case x of enat n \<Rightarrow> if Fin (int n) \<le> lmt then Fin (int n) else PInf | \<infinity> \<Rightarrow> PInf)"

definition bf_pred :: "csgraph \<Rightarrow> nat list \<Rightarrow> enat list \<Rightarrow> dist \<Rightarrow> nat \<Rightarrow> int" where
  "bf_pred G S D lmt v =
     (if v \<in> set S \<or> clip lmt (D ! v) = PInf then - 9999
      else (case find (\<lambda>(u, v', w). v' = v \<and> u < nv G \<and> D ! u + enat (nat w) = D ! v) (arcs G) of
              None \<Rightarrow> - 9999
            | Some (u, v', w) \<Rightarrow> int u))"

definition bf_source :: "csgraph \<Rightarrow> nat list \<Rightarrow> enat list \<Rightarrow> dist \<Rightarrow> nat \<Rightarrow> int" where
  "bf_source G S D lmt v =
     (if clip lmt (D ! v) = PInf then - 9999
      else (case find (\<lambda>s. bf_dist G [s] ! v = D ! v) S of None \<Rightarrow> - 9999 | Some s \<Rightarrow> int s))"

definition bf_search :: search where
  "bf_search G S lmt =
     (let D = bf_dist G S
      in Inr (map (clip lmt) D, map (bf_pred G S D lmt) [0..<nv G], map (bf_source G S D lmt) [0..<nv G]))"

section \<open>Properties of paths and of the state of the loop\<close>

text \<open>Each vertex of the list is reached and in range, and each is one edge nearer to the
  source than the one before it; the list ends at the source \<open>t\<close>.\<close>

definition pred_chain :: "csgraph \<Rightarrow> dist list \<Rightarrow> nat \<Rightarrow> int list \<Rightarrow> bool" where
  "pred_chain G ds t zs \<longleftrightarrow>
     zs \<noteq> [] \<and> last zs = int t \<and>
     (\<forall>x\<in>set zs. 0 \<le> x \<and> x < int (nv G) \<and> ds ! nat x \<noteq> PInf) \<and>
     successively (\<lambda>x y. \<exists>w a. edge G (nat y) (nat x) w \<and> ds ! nat y = Fin a \<and> ds ! nat x = Fin (a + w)) zs"

text \<open>A list that starts at \<open>t\<close>, ends at \<open>b\<close> and goes along edges, every step farther from
  \<open>t\<close> by the weight of its edge.\<close>

definition path_from :: "csgraph \<Rightarrow> dist list \<Rightarrow> nat \<Rightarrow> nat \<Rightarrow> int list \<Rightarrow> bool" where
  "path_from G ds t b path \<longleftrightarrow>
     path \<noteq> [] \<and> hd path = int t \<and> last path = int b \<and>
     (\<forall>x\<in>set path. 0 \<le> x \<and> x < int (nv G) \<and> ds ! nat x \<noteq> PInf) \<and>
     successively (\<lambda>x y. \<exists>w a. edge G (nat x) (nat y) w \<and> ds ! nat x = Fin a \<and> ds ! nat y = Fin (a + w)) path"

text \<open>The mask has one entry per vertex and the visited vertices are vertices.\<close>

definition wf_state :: "csgraph \<Rightarrow> teasar_state \<Rightarrow> bool" where
  "wf_state G st \<longleftrightarrow>
     length (valid st) = nv G \<and> visited_nodes st \<noteq> [] \<and>
     (\<forall>x\<in>set (visited_nodes st). 0 \<le> x \<and> x < int (nv G))"

text \<open>The state after an iteration, from what the iteration computed.\<close>

definition next_state :: "bool \<Rightarrow> teasar_state \<Rightarrow> int list \<Rightarrow> dist \<Rightarrow> dist list \<Rightarrow> int list \<Rightarrow> teasar_state" where
  "next_state return_map st path d dm sources =
     \<lparr>valid = invalidate (valid st) dm,
      visited_nodes = visited_nodes st @ butlast path,
      paths = paths st @ [path],
      path_lengths = path_lengths st @ [d],
      mesh_to_skeleton_dist =
        (if return_map then update_dist dm (mesh_to_skeleton_dist st) else mesh_to_skeleton_dist st),
      mesh_to_skeleton_map =
        (if return_map then update_map dm sources (mesh_to_skeleton_dist st) (mesh_to_skeleton_map st)
         else mesh_to_skeleton_map st)\<rparr>"

text \<open>
  \<open>covered G ps L v\<close>: some vertex of some path of \<open>ps\<close> is joined to \<open>v\<close> by a walk of cost at
  most \<open>L\<close>.
\<close>

definition covered :: "csgraph \<Rightarrow> int list list \<Rightarrow> dist \<Rightarrow> nat \<Rightarrow> bool" where
  "covered G ps L v \<longleftrightarrow> (\<exists>p\<in>set ps. \<exists>x\<in>set p. \<exists>c. walk G (nat x) v c \<and> Fin c \<le> L)"

text \<open>
  \<open>good_path G p l\<close>: the entries of \<open>p\<close> are vertices, consecutive ones are joined by an edge,
  and \<open>l\<close> is the distance in the graph from the first entry to the last.
\<close>

definition good_path :: "csgraph \<Rightarrow> int list \<Rightarrow> dist \<Rightarrow> bool" where
  "good_path G p l \<longleftrightarrow>
     p \<noteq> [] \<and> (\<forall>x\<in>set p. 0 \<le> x \<and> x < int (nv G)) \<and>
     successively (\<lambda>x y. \<exists>w. edge G (nat x) (nat y) w) p \<and>
     (\<exists>d. l = Fin d \<and> sp_dist G {nat (hd p)} (nat (last p)) d)"

text \<open>The vertices of the recorded paths: the sources of the sweeps made so far.\<close>

definition path_vertices :: "int list list \<Rightarrow> nat set" where
  "path_vertices ps = (\<Union>p\<in>set ps. nat ` set p)"

text \<open>
  The map arrays are those of one exact search from all the vertices of the recorded paths
  with limit \<open>L\<close>: the recorded distance of a vertex is its distance to the nearest of them
  when that is within \<open>L\<close>, the recorded source is one of them at that distance, and a
  vertex that none of them reaches within \<open>L\<close> has distance \<open>inf\<close> and no source.
\<close>

definition map_exact :: "csgraph \<Rightarrow> dist \<Rightarrow> teasar_state \<Rightarrow> bool" where
  "map_exact G L st \<longleftrightarrow>
     length (mesh_to_skeleton_dist st) = nv G \<and> length (mesh_to_skeleton_map st) = nv G \<and>
     (\<forall>v<nv G. \<forall>d. mesh_to_skeleton_dist st ! v = Fin d \<longleftrightarrow>
        sp_dist G (path_vertices (paths st)) v d \<and> Fin d \<le> L) \<and>
     (\<forall>v<nv G. \<forall>d. mesh_to_skeleton_dist st ! v = Fin d \<longrightarrow>
        (\<exists>s\<in>path_vertices (paths st). mesh_to_skeleton_map st ! v = Some (int s) \<and> walk G s v d)) \<and>
     (\<forall>v<nv G. mesh_to_skeleton_dist st ! v = PInf \<longrightarrow> mesh_to_skeleton_map st ! v = None)"


text \<open>
  For the executable search: every finite entry of \<open>D\<close> is the cost of a walk from a source
  (\<open>bf_sound\<close>), and no arc can lower an entry any more (\<open>bf_closed\<close>).
\<close>

definition bf_sound :: "csgraph \<Rightarrow> nat set \<Rightarrow> enat list \<Rightarrow> bool" where
  "bf_sound G S D \<longleftrightarrow>
     length D = nv G \<and> (\<forall>s\<in>S. D ! s = 0) \<and>
     (\<forall>v<nv G. \<forall>k. D ! v = enat k \<longrightarrow> (\<exists>s\<in>S. walk G s v (int k)))"

definition bf_closed :: "csgraph \<Rightarrow> enat list \<Rightarrow> bool" where
  "bf_closed G D \<longleftrightarrow> (\<forall>u v w. edge G u v w \<longrightarrow> D ! v \<le> D ! u + enat (nat w))"

section \<open>A graph to run the model on\<close>

text \<open>
  Four vertices: the root 0 with a long edge to the leaf 1 and a short edge to vertex 2,
  and the leaf 3 behind vertex 2.  With \<open>invalidation_d = 1\<close> the loop makes two iterations:
  the path from 1 first, whose sweep reaches vertex 2 from the root, then the path from 3,
  which goes through vertex 2.
\<close>

definition tee :: csgraph where
  "tee = \<lparr>nv = 4, entries = [(0, 1, 10), (0, 2, 1), (2, 3, 5)]\<rparr>"

text \<open>A root finder that is never called, for the calls that pass the root.\<close>

definition no_root :: root_func where
  "no_root G v = raise TypeError"

definition tee_rds :: "dist list" where
  "tee_rds = [Fin 0, Fin 10, Fin 1, Fin 6]"

definition tee_rp :: "int list" where
  "tee_rp = [- 9999, 0, 0, 2]"

definition tee_st0 :: teasar_state where
  "tee_st0 = \<lparr>valid = [False, True, True, True], visited_nodes = [0], paths = [], path_lengths = [],
     mesh_to_skeleton_dist = [PInf, PInf, PInf, PInf], mesh_to_skeleton_map = [None, None, None, None]\<rparr>"

definition tee_st1 :: teasar_state where
  "tee_st1 = \<lparr>valid = [False, False, False, True], visited_nodes = [0, 1], paths = [[1, 0]],
     path_lengths = [Fin 10],
     mesh_to_skeleton_dist = [Fin 0, Fin 0, Fin 1, PInf],
     mesh_to_skeleton_map = [Some 0, Some 1, Some 0, None]\<rparr>"

definition tee_st2 :: teasar_state where
  "tee_st2 = \<lparr>valid = [False, False, False, False], visited_nodes = [0, 1, 3, 2],
     paths = [[1, 0], [3, 2, 0]], path_lengths = [Fin 10, Fin 6],
     mesh_to_skeleton_dist = [Fin 0, Fin 0, Fin 0, Fin 0],
     mesh_to_skeleton_map = [Some 0, Some 1, Some 2, Some 3]\<rparr>"

section \<open>Facts about the array operations\<close>

lemma np_index_inrange: "0 \<le> i \<Longrightarrow> i < int n \<Longrightarrow> np_index n i = Some (nat i)"
  by (simp add: np_index_def)

lemma np_get_inrange: "0 \<le> i \<Longrightarrow> i < int (length xs) \<Longrightarrow> np_get xs i = Inr (xs ! nat i)"
  by (simp add: np_get_def np_index_inrange)

lemma np_get_int: "k < length xs \<Longrightarrow> np_get xs (int k) = Inr (xs ! k)"
  by (simp add: np_get_inrange)

lemma np_take_inrange:
  "\<forall>i\<in>set idx. 0 \<le> i \<and> i < int (length xs) \<Longrightarrow> np_take xs idx = Inr (map (\<lambda>i. xs ! nat i) idx)"
  by (induction idx) (simp_all add: np_get_inrange)

lemma argmin_from_spec:
  "j < i \<Longrightarrow>
     (argmin_from xs i j b = j \<and> (\<forall>x\<in>set xs. b \<le> x)) \<or>
     (i \<le> argmin_from xs i j b \<and> argmin_from xs i j b < i + length xs \<and>
      xs ! (argmin_from xs i j b - i) \<le> b \<and> (\<forall>x\<in>set xs. xs ! (argmin_from xs i j b - i) \<le> x))"
proof (induction xs arbitrary: i j b)
  case Nil
  show ?case by simp
next
  case (Cons x xs)
  show ?case
  proof (cases "x < b")
    case True
    define k where "k = argmin_from xs (Suc i) i x"
    have res: "argmin_from (x # xs) i j b = k"
      using True by (simp add: k_def)
    from Cons.IH [of i "Suc i" x]
    have "(k = i \<and> (\<forall>y\<in>set xs. x \<le> y)) \<or>
          (Suc i \<le> k \<and> k < Suc i + length xs \<and> xs ! (k - Suc i) \<le> x \<and> (\<forall>y\<in>set xs. xs ! (k - Suc i) \<le> y))"
      by (simp add: k_def)
    then show ?thesis
    proof
      assume "k = i \<and> (\<forall>y\<in>set xs. x \<le> y)"
      with True show ?thesis unfolding res by auto
    next
      assume a: "Suc i \<le> k \<and> k < Suc i + length xs \<and> xs ! (k - Suc i) \<le> x \<and> (\<forall>y\<in>set xs. xs ! (k - Suc i) \<le> y)"
      then have "(x # xs) ! (k - i) = xs ! (k - Suc i)"
        by (simp add: nth_Cons')
      with a True show ?thesis unfolding res by auto
    qed
  next
    case False
    define k where "k = argmin_from xs (Suc i) j b"
    have res: "argmin_from (x # xs) i j b = k"
      using False by (simp add: k_def)
    from Cons.prems have "j < Suc i" by simp
    from Cons.IH [OF this, of b]
    have "(k = j \<and> (\<forall>y\<in>set xs. b \<le> y)) \<or>
          (Suc i \<le> k \<and> k < Suc i + length xs \<and> xs ! (k - Suc i) \<le> b \<and> (\<forall>y\<in>set xs. xs ! (k - Suc i) \<le> y))"
      by (simp add: k_def)
    then show ?thesis
    proof
      assume "k = j \<and> (\<forall>y\<in>set xs. b \<le> y)"
      with False show ?thesis unfolding res by auto
    next
      assume a: "Suc i \<le> k \<and> k < Suc i + length xs \<and> xs ! (k - Suc i) \<le> b \<and> (\<forall>y\<in>set xs. xs ! (k - Suc i) \<le> y)"
      then have "(x # xs) ! (k - i) = xs ! (k - Suc i)"
        by (simp add: nth_Cons')
      with a False show ?thesis unfolding res by auto
    qed
  qed
qed

lemma argmin_spec:
  assumes "xs \<noteq> []"
  shows "\<exists>k. argmin xs = Inr k \<and> k < length xs \<and> (\<forall>x\<in>set xs. xs ! k \<le> x)"
proof -
  from assms obtain x ys where xs: "xs = x # ys" by (cases xs) auto
  define k where "k = argmin_from ys 1 0 x"
  have res: "argmin xs = Inr k" by (simp add: xs argmin_def k_def)
  from argmin_from_spec [of 0 1 ys x]
  have "(k = 0 \<and> (\<forall>y\<in>set ys. x \<le> y)) \<or>
        (1 \<le> k \<and> k < 1 + length ys \<and> ys ! (k - 1) \<le> x \<and> (\<forall>y\<in>set ys. ys ! (k - 1) \<le> y))"
    by (simp add: k_def)
  then have "k < length xs \<and> (\<forall>y\<in>set xs. xs ! k \<le> y)"
  proof
    assume "k = 0 \<and> (\<forall>y\<in>set ys. x \<le> y)"
    then show ?thesis by (simp add: xs)
  next
    assume a: "1 \<le> k \<and> k < 1 + length ys \<and> ys ! (k - 1) \<le> x \<and> (\<forall>y\<in>set ys. ys ! (k - 1) \<le> y)"
    then have "xs ! k = ys ! (k - 1)" by (simp add: xs nth_Cons')
    with a show ?thesis by (auto simp: xs)
  qed
  with res show ?thesis by blast
qed

lemma nanargmax_from_some:
  "nanargmax_from xs i best = Some (k, d) \<Longrightarrow>
     (\<forall>e. Some e \<in> set xs \<longrightarrow> e \<le> d) \<and>
     (\<forall>j b. best = Some (j, b) \<longrightarrow> b \<le> d) \<and>
     (best = Some (k, d) \<or> (i \<le> k \<and> k < i + length xs \<and> xs ! (k - i) = Some d))"
proof (induction xs arbitrary: i best)
  case Nil
  then show ?case by simp
next
  case (Cons x xs)
  define best' where "best' = (case x of None \<Rightarrow> best
        | Some d \<Rightarrow> (case best of None \<Rightarrow> Some (i, d)
                     | Some (j, b) \<Rightarrow> if b < d then Some (i, d) else best))"
  from Cons.prems have "nanargmax_from xs (Suc i) best' = Some (k, d)"
    by (simp add: best'_def)
  from Cons.IH [OF this]
  have ih: "(\<forall>e. Some e \<in> set xs \<longrightarrow> e \<le> d)" "(\<forall>j b. best' = Some (j, b) \<longrightarrow> b \<le> d)"
    "best' = Some (k, d) \<or> (Suc i \<le> k \<and> k < Suc i + length xs \<and> xs ! (k - Suc i) = Some d)"
    by auto
  have shift: "Suc i \<le> k \<Longrightarrow> (x # xs) ! (k - i) = xs ! (k - Suc i)"
    by (simp add: nth_Cons')
  show ?case
  proof (cases x)
    case None
    then have "best' = best" by (simp add: best'_def)
    with ih None shift show ?thesis by auto
  next
    case (Some e)
    show ?thesis
    proof (cases best)
      case None
      with Some have b': "best' = Some (i, e)" by (simp add: best'_def)
      with ih(2) have "e \<le> d" by simp
      moreover from ih(3) b' shift Some
      have "i \<le> k \<and> k < i + length (x # xs) \<and> (x # xs) ! (k - i) = Some d"
        by auto
      ultimately show ?thesis using ih(1) Some None by auto
    next
      case best: (Some jb)
      obtain j b where jb: "jb = (j, b)" by (cases jb) auto
      show ?thesis
      proof (cases "b < e")
        case True
        with Some best jb have b': "best' = Some (i, e)" by (simp add: best'_def)
        with ih(2) have "e \<le> d" by simp
        moreover from ih(3) b' shift Some
        have "i \<le> k \<and> k < i + length (x # xs) \<and> (x # xs) ! (k - i) = Some d"
          by auto
        ultimately show ?thesis using ih(1) Some best jb True by auto
      next
        case False
        with Some best jb have b': "best' = best" by (simp add: best'_def)
        with ih(2) best jb have "b \<le> d" by simp
        with False have "e \<le> d" by simp
        with ih b' best jb Some shift \<open>b \<le> d\<close> show ?thesis by auto
      qed
    qed
  qed
qed


lemma nanargmax_spec:
  assumes "nanargmax xs = Inr t"
  shows "t < length xs \<and> (\<exists>d. xs ! t = Some d \<and> (\<forall>e. Some e \<in> set xs \<longrightarrow> e \<le> d))"
proof -
  from assms obtain d where "nanargmax_from xs 0 None = Some (t, d)"
    by (auto simp: nanargmax_def split: option.splits)
  from nanargmax_from_some [OF this] show ?thesis by auto
qed


lemma masked_nth:
  "length root_ds = length vm \<Longrightarrow> v < length vm \<Longrightarrow>
     masked root_ds vm ! v =
       (if vm ! v then Some (root_ds ! v) else (case root_ds ! v of Fin x \<Rightarrow> Some (Fin 0) | PInf \<Rightarrow> None))"
  by (simp add: masked_def)

lemma length_masked: "length root_ds = length vm \<Longrightarrow> length (masked root_ds vm) = length vm"
  by (simp add: masked_def)

text \<open>What a selected target is: in range, at a finite distance, and either valid with the
  largest distance among the valid vertices, or no valid vertex has a positive distance.\<close>

lemma select_target_spec:
  assumes "select_target root_ds vm = Inr t"
  shows "length root_ds = length vm \<and> t < length vm \<and> (\<exists>a. root_ds ! t = Fin a) \<and>
         (if vm ! t then (\<forall>v<length vm. vm ! v \<longrightarrow> root_ds ! v \<le> root_ds ! t)
          else (\<forall>v<length vm. vm ! v \<longrightarrow> root_ds ! v \<le> Fin 0))"
proof -
  from assms have len: "length root_ds = length vm"
    by (auto simp: select_target_def split: if_splits)
  from assms len have nm: "nanargmax (masked root_ds vm) = Inr t" and fin: "root_ds ! t \<noteq> PInf"
    by (auto simp: select_target_def split: if_splits sum.splits)
  from nanargmax_spec [OF nm] len obtain d where
    t: "t < length vm" and d: "masked root_ds vm ! t = Some d"
    and mx: "\<forall>e. Some e \<in> set (masked root_ds vm) \<longrightarrow> e \<le> d"
    by (auto simp: length_masked)
  from fin obtain a where a: "root_ds ! t = Fin a" by (cases "root_ds ! t") auto
  have val: "\<And>v. v < length vm \<Longrightarrow> vm ! v \<Longrightarrow> root_ds ! v \<le> d"
  proof -
    fix v assume v: "v < length vm" "vm ! v"
    then have "masked root_ds vm ! v = Some (root_ds ! v)"
      by (simp add: masked_nth len)
    moreover from v len have "masked root_ds vm ! v \<in> set (masked root_ds vm)"
      by (simp add: length_masked)
    ultimately show "root_ds ! v \<le> d" using mx by simp
  qed
  have "if vm ! t then (\<forall>v<length vm. vm ! v \<longrightarrow> root_ds ! v \<le> root_ds ! t)
          else (\<forall>v<length vm. vm ! v \<longrightarrow> root_ds ! v \<le> Fin 0)"
  proof (cases "vm ! t")
    case True
    with d t len have "d = root_ds ! t" by (simp add: masked_nth)
    with val True show ?thesis by simp
  next
    case False
    with d t len a have "d = Fin 0" by (simp add: masked_nth)
    with val False show ?thesis by simp
  qed
  with len t a show ?thesis by blast
qed


lemma length_invalidate: "length dm = length vm \<Longrightarrow> length (invalidate vm dm) = length vm"
  by (simp add: invalidate_def)

lemma invalidate_nth:
  "length dm = length vm \<Longrightarrow> v < length vm \<Longrightarrow> invalidate vm dm ! v \<longleftrightarrow> vm ! v \<and> dm ! v = PInf"
  by (simp add: invalidate_def)



lemma list_ex_id_iff: "list_ex id xs \<longleftrightarrow> (\<exists>i<length xs. xs ! i)"
proof -
  have "list_ex id xs \<longleftrightarrow> True \<in> set xs"
    by (induction xs) auto
  also have "\<dots> \<longleftrightarrow> (\<exists>i<length xs. xs ! i = True)"
    by (rule in_set_conv_nth)
  finally show ?thesis by simp
qed


section \<open>Facts about walks and distances\<close>

lemma arcs_iff: "(u, v, w) \<in> set (arcs G) \<longleftrightarrow> (u, v, w) \<in> set (entries G) \<or> (v, u, w) \<in> set (entries G)"
proof -
  have "(u, v, w) \<in> (\<lambda>(u, v, w). (v, u, w)) ` set (entries G) \<longleftrightarrow> (v, u, w) \<in> set (entries G)"
  proof
    assume "(u, v, w) \<in> (\<lambda>(u, v, w). (v, u, w)) ` set (entries G)"
    then obtain x where x: "x \<in> set (entries G)" "(u, v, w) = (\<lambda>(u, v, w). (v, u, w)) x"
      by (rule imageE)
    obtain a b c where "x = (a, b, c)" by (cases x) auto
    with x show "(v, u, w) \<in> set (entries G)" by simp
  next
    assume "(v, u, w) \<in> set (entries G)"
    then show "(u, v, w) \<in> (\<lambda>(u, v, w). (v, u, w)) ` set (entries G)"
      by (rule rev_image_eqI) simp
  qed
  then show ?thesis by (simp add: arcs_def)
qed



lemma wf_graph_entry: "wf_graph G \<Longrightarrow> (u, v, w) \<in> set (entries G) \<Longrightarrow> u < nv G \<and> v < nv G \<and> 0 \<le> w"
proof -
  assume "wf_graph G" and e: "(u, v, w) \<in> set (entries G)"
  then have "\<forall>x\<in>set (entries G). case x of (u, v, w) \<Rightarrow> u < nv G \<and> v < nv G \<and> 0 \<le> w"
    by (simp add: wf_graph_def list_all_iff)
  from bspec [OF this e] show ?thesis by simp
qed

lemma positive_entry: "positive_weights G \<Longrightarrow> (u, v, w) \<in> set (entries G) \<Longrightarrow> 0 < w"
proof -
  assume "positive_weights G" and e: "(u, v, w) \<in> set (entries G)"
  then have "\<forall>x\<in>set (entries G). case x of (u, v, w) \<Rightarrow> 0 < w"
    by (simp add: positive_weights_def list_all_iff)
  from bspec [OF this e] show ?thesis by simp
qed

lemma edge_nonneg: "wf_graph G \<Longrightarrow> edge G u v w \<Longrightarrow> 0 \<le> w"
  using wf_graph_entry [of G u v w] wf_graph_entry [of G v u w]
  by (auto simp: edge_def arcs_iff)

lemma edge_positive: "positive_weights G \<Longrightarrow> edge G u v w \<Longrightarrow> 0 < w"
  using positive_entry [of G u v w] positive_entry [of G v u w]
  by (auto simp: edge_def arcs_iff)


lemma walk_nonneg:
  assumes "wf_graph G"
  shows "walk G s v c \<Longrightarrow> 0 \<le> c"
proof (induction rule: walk.induct)
  case walk_refl
  show ?case by simp
next
  case (walk_step u c v w)
  with edge_nonneg [OF assms, of u v w] show ?case by simp
qed





lemma sp_dist_le: "sp_dist G S v d \<Longrightarrow> s \<in> S \<Longrightarrow> walk G s v c \<Longrightarrow> d \<le> c"
  unfolding sp_dist_def by blast

lemma sp_dist_walk: "sp_dist G S v d \<Longrightarrow> \<exists>s\<in>S. walk G s v d"
  unfolding sp_dist_def by blast

lemma sp_dist_unique:
  assumes "sp_dist G S v d" and "sp_dist G S v d'"
  shows "d = d'"
proof -
  from sp_dist_walk [OF assms(1)] obtain s where s: "s \<in> S" "walk G s v d" by blast
  from sp_dist_walk [OF assms(2)] obtain s' where s': "s' \<in> S" "walk G s' v d'" by blast
  from sp_dist_le [OF assms(1) s'] sp_dist_le [OF assms(2) s] show ?thesis by simp
qed

lemma sp_dist_nonneg:
  assumes "wf_graph G" and "sp_dist G S v d"
  shows "0 \<le> d"
proof -
  from sp_dist_walk [OF assms(2)] obtain s where "walk G s v d" by blast
  then show ?thesis by (rule walk_nonneg [OF assms(1)])
qed

lemma sp_distI:
  assumes "s \<in> S" and "walk G s v d" and "\<And>s' c. s' \<in> S \<Longrightarrow> walk G s' v c \<Longrightarrow> d \<le> c"
  shows "sp_dist G S v d"
  unfolding sp_dist_def using assms by blast

text \<open>A vertex that some walk reaches has a distance, at most the cost of that walk.\<close>

lemma sp_dist_exists:
  assumes wf: "wf_graph G" and w: "walk G s v c" and s: "s \<in> S"
  shows "\<exists>d. d \<le> c \<and> sp_dist G S v d"
proof -
  define P where "P = (\<lambda>k :: nat. \<exists>s\<in>S. walk G s v (int k))"
  from walk_nonneg [OF wf w] have "int (nat c) = c" by simp
  with w s have Pc: "P (nat c)" by (auto simp: P_def)
  define m where "m = (LEAST k. P k)"
  have Pm: "P m" unfolding m_def using Pc by (rule LeastI)
  have least: "\<And>k. P k \<Longrightarrow> m \<le> k" unfolding m_def by (rule Least_le)
  have "sp_dist G S v (int m)"
    unfolding sp_dist_def
  proof (intro conjI ballI allI impI)
    from Pm show "\<exists>s\<in>S. walk G s v (int m)" by (simp add: P_def)
  next
    fix s' c' assume s': "s' \<in> S" and w': "walk G s' v c'"
    from walk_nonneg [OF wf w'] have c': "int (nat c') = c'" by simp
    with s' w' have "P (nat c')" by (auto simp: P_def)
    from least [OF this] c' show "int m \<le> c'" by linarith
  qed
  moreover from least [OF Pc] \<open>int (nat c) = c\<close> have "int m \<le> c" by linarith
  ultimately show ?thesis by blast
qed

lemma sp_dist_zero_walk:
  assumes "wf_graph G" and "s \<in> S" and "walk G s v 0"
  shows "sp_dist G S v 0"
  using assms(2,3)
proof (rule sp_distI)
  fix s' c assume "walk G s' v c"
  then show "0 \<le> c" by (rule walk_nonneg [OF assms(1)])
qed

lemma sp_dist_source:
  assumes "wf_graph G" and "s \<in> S" and "s < nv G"
  shows "sp_dist G S s 0"
  using assms(1,2) walk_refl [OF assms(3)] by (rule sp_dist_zero_walk)

section \<open>The executable search is exact\<close>

lemma arcs_edge:
  assumes "wf_graph G" and "(u, v, w) \<in> set (arcs G)"
  shows "edge G u v w"
proof -
  from assms(2) have "(u, v, w) \<in> set (entries G) \<or> (v, u, w) \<in> set (entries G)"
    by (simp add: arcs_iff)
  then have "u < nv G \<and> v < nv G"
  proof
    assume "(u, v, w) \<in> set (entries G)"
    from wf_graph_entry [OF assms(1) this] show ?thesis by simp
  next
    assume "(v, u, w) \<in> set (entries G)"
    from wf_graph_entry [OF assms(1) this] show ?thesis by simp
  qed
  with assms(2) show ?thesis by (simp add: edge_def)
qed

lemma relax_sound:
  assumes snd: "bf_sound G S D" and W: "wf_graph G" and e: "edge G u v w"
  shows "bf_sound G S (relax (u, v, w) D)"
proof -
  from snd have len: "length D = nv G" and src: "\<forall>s\<in>S. D ! s = 0"
    and wk: "\<forall>x<nv G. \<forall>k. D ! x = enat k \<longrightarrow> (\<exists>s\<in>S. walk G s x (int k))"
    by (simp_all add: bf_sound_def)
  from e have u: "u < nv G" and v: "v < nv G" by (simp_all add: edge_def)
  from edge_nonneg [OF W e] have w: "0 \<le> w" .
  let ?new = "min (D ! v) (D ! u + enat (nat w))"
  have rel: "relax (u, v, w) D = D[v := ?new]"
    using u v len by (simp add: relax_def)
  have newv: "\<And>k. ?new = enat k \<Longrightarrow> \<exists>s\<in>S. walk G s v (int k)"
  proof -
    fix k assume k: "?new = enat k"
    show "\<exists>s\<in>S. walk G s v (int k)"
    proof (cases "D ! v \<le> D ! u + enat (nat w)")
      case True
      with k have "D ! v = enat k" by (simp add: min_def)
      with wk v show ?thesis by blast
    next
      case False
      with k have s: "D ! u + enat (nat w) = enat k" by (simp add: min_def)
      then obtain j where j: "D ! u = enat j" by (cases "D ! u") auto
      with s have kj: "k = j + nat w" by simp
      from wk u j obtain s where s: "s \<in> S" "walk G s u (int j)" by blast
      from walk_step [OF s(2) e] have "walk G s v (int j + w)" .
      moreover from kj w have "int k = int j + w" by simp
      ultimately show ?thesis using s(1) by auto
    qed
  qed
  have "length (D[v := ?new]) = nv G" using len by simp
  moreover have "\<forall>s\<in>S. D[v := ?new] ! s = 0"
  proof
    fix s assume s: "s \<in> S"
    with src have z: "D ! s = 0" by blast
    show "D[v := ?new] ! s = 0"
    proof (cases "s = v")
      case True
      with z have "?new = 0" by (simp add: min_def)
      with True v len show ?thesis by simp
    next
      case False
      with z show ?thesis by simp
    qed
  qed
  moreover have "\<forall>x<nv G. \<forall>k. D[v := ?new] ! x = enat k \<longrightarrow> (\<exists>s\<in>S. walk G s x (int k))"
  proof (intro allI impI)
    fix x k assume x: "x < nv G" and k: "D[v := ?new] ! x = enat k"
    show "\<exists>s\<in>S. walk G s x (int k)"
    proof (cases "x = v")
      case True
      with k v len have "?new = enat k" by simp
      with newv True show ?thesis by blast
    next
      case False
      with k have "D ! x = enat k" by simp
      with wk x show ?thesis by blast
    qed
  qed
  ultimately show ?thesis unfolding rel bf_sound_def by blast
qed

lemma fold_relax_sound:
  assumes W: "wf_graph G"
  shows "set as \<subseteq> set (arcs G) \<Longrightarrow> bf_sound G S D \<Longrightarrow> bf_sound G S (fold relax as D)"
proof (induction as arbitrary: D)
  case Nil
  then show ?case by simp
next
  case (Cons a as)
  obtain u v w where a: "a = (u, v, w)" by (cases a)
  from Cons.prems(1) a have "(u, v, w) \<in> set (arcs G)" by simp
  with W have "edge G u v w" by (rule arcs_edge)
  with Cons.prems(2) W have "bf_sound G S (relax (u, v, w) D)" by (rule relax_sound)
  moreover from Cons.prems(1) have "set as \<subseteq> set (arcs G)" by simp
  ultimately have "bf_sound G S (fold relax as (relax a D))"
    unfolding a by (intro Cons.IH)
  then show ?case by simp
qed

lemma sweep_sound: "wf_graph G \<Longrightarrow> bf_sound G S D \<Longrightarrow> bf_sound G S (sweep G D)"
  unfolding sweep_def by (rule fold_relax_sound) simp_all

lemma bf_iterate_sound:
  assumes W: "wf_graph G"
  shows "bf_sound G S D \<Longrightarrow> bf_sound G S (bf_iterate G D)"
  using W
proof (induction G D rule: bf_iterate.induct)
  case (1 G D)
  show ?case
  proof (cases "sweep G D = D")
    case True
    then have "bf_iterate G D = D"
      by (subst bf_iterate.simps) (simp add: Let_def)
    with 1(2) show ?thesis by simp
  next
    case False
    then have eq: "bf_iterate G D = bf_iterate G (sweep G D)"
      by (subst bf_iterate.simps) (simp add: Let_def)
    from sweep_sound [OF 1(3) 1(2)] have "bf_sound G S (sweep G D)" .
    from 1(1) [OF refl False this 1(3)] show ?thesis unfolding eq .
  qed
qed

lemma bf_iterate_fixed: "sweep G (bf_iterate G D) = bf_iterate G D"
proof (induction G D rule: bf_iterate.induct)
  case (1 G D)
  show ?case
  proof (cases "sweep G D = D")
    case True
    then have "bf_iterate G D = D"
      by (subst bf_iterate.simps) (simp add: Let_def)
    with True show ?thesis by simp
  next
    case False
    then have eq: "bf_iterate G D = bf_iterate G (sweep G D)"
      by (subst bf_iterate.simps) (simp add: Let_def)
    from 1 [OF refl False] show ?thesis unfolding eq .
  qed
qed

lemma pointwise_antisym:
  assumes "list_all2 (\<le>) xs ys" and "list_all2 (\<le>) ys (xs :: enat list)"
  shows "xs = ys"
proof (rule list_all2_antisym [OF _ assms])
  fix x y :: enat
  assume "x \<le> y" "y \<le> x"
  then show "x = y" by simp
qed

lemma fold_relax_fixed:
  "fold relax as D = D \<Longrightarrow> (u, v, w) \<in> set as \<Longrightarrow> u < length D \<Longrightarrow> v < length D \<Longrightarrow>
     D ! v \<le> D ! u + enat (nat w)"
proof (induction as)
  case Nil
  then show ?case by simp
next
  case (Cons a as)
  from Cons.prems(1) have eq: "fold relax as (relax a D) = D" by simp
  have "list_all2 (\<le>) (fold relax as (relax a D)) (relax a D)" by (rule fold_relax_le)
  with eq have "list_all2 (\<le>) D (relax a D)" by simp
  moreover have "list_all2 (\<le>) (relax a D) D" by (rule relax_le)
  ultimately have fixa: "relax a D = D" by (intro pointwise_antisym)
  with eq have fixas: "fold relax as D = D" by simp
  show ?case
  proof (cases "a = (u, v, w)")
    case True
    with fixa Cons.prems(3,4) have "D[v := min (D ! v) (D ! u + enat (nat w))] = D"
      by (simp add: relax_def)
    then have "D[v := min (D ! v) (D ! u + enat (nat w))] ! v = D ! v" by simp
    with Cons.prems(4) have "min (D ! v) (D ! u + enat (nat w)) = D ! v" by simp
    then show ?thesis by (simp add: min_def split: if_splits)
  next
    case False
    with Cons.prems(2) have "(u, v, w) \<in> set as" by simp
    from Cons.IH [OF fixas this Cons.prems(3,4)] show ?thesis .
  qed
qed

lemma fixed_closed:
  assumes "sweep G D = D" and "length D = nv G"
  shows "bf_closed G D"
  unfolding bf_closed_def
proof (intro allI impI)
  fix u v w assume e: "edge G u v w"
  then have "(u, v, w) \<in> set (arcs G)" "u < length D" "v < length D"
    using assms(2) by (simp_all add: edge_def)
  with assms(1) show "D ! v \<le> D ! u + enat (nat w)"
    unfolding sweep_def by (intro fold_relax_fixed)
qed

lemma closed_lower:
  assumes W: "wf_graph G" and cl: "bf_closed G D" and src: "D ! s = 0"
  shows "walk G s v c \<Longrightarrow> D ! v \<le> enat (nat c)"
proof (induction rule: walk.induct)
  case walk_refl
  from src show ?case by simp
next
  case (walk_step u c v w)
  from cl walk_step.hyps(2) have "D ! v \<le> D ! u + enat (nat w)"
    by (simp add: bf_closed_def)
  also from walk_step.IH have "D ! u + enat (nat w) \<le> enat (nat c) + enat (nat w)"
    by (rule add_right_mono)
  also from walk_nonneg [OF W walk_step.hyps(1)] edge_nonneg [OF W walk_step.hyps(2)]
  have "enat (nat c) + enat (nat w) = enat (nat (c + w))"
    by (simp add: nat_add_distrib)
  finally show ?case .
qed

lemma bf_dist_sound:
  assumes W: "wf_graph G" and S: "set S \<subseteq> {..<nv G}"
  shows "bf_sound G (set S) (bf_dist G S)"
  unfolding bf_dist_def
proof (rule bf_iterate_sound [OF W])
  let ?D = "map (\<lambda>v. if v \<in> set S then 0 else \<infinity>) [0..<nv G] :: enat list"
  have nth: "\<And>v. v < nv G \<Longrightarrow> ?D ! v = (if v \<in> set S then 0 else \<infinity>)" by simp
  have "\<forall>s\<in>set S. ?D ! s = 0"
  proof
    fix s assume s: "s \<in> set S"
    with S have "s < nv G" by auto
    with nth s show "?D ! s = 0" by simp
  qed
  moreover have "\<forall>v<nv G. \<forall>k. ?D ! v = enat k \<longrightarrow> (\<exists>s\<in>set S. walk G s v (int k))"
  proof (intro allI impI)
    fix v k assume v: "v < nv G" and k: "?D ! v = enat k"
    from k nth [OF v] have "v \<in> set S \<and> k = 0"
      by (cases "v \<in> set S") (simp_all add: zero_enat_def)
    with walk_refl [OF v] show "\<exists>s\<in>set S. walk G s v (int k)" by auto
  qed
  ultimately show "bf_sound G (set S) ?D" by (simp add: bf_sound_def)
qed

lemma bf_dist_closed:
  assumes W: "wf_graph G" and S: "set S \<subseteq> {..<nv G}"
  shows "bf_closed G (bf_dist G S)"
proof (rule fixed_closed)
  show "sweep G (bf_dist G S) = bf_dist G S"
    unfolding bf_dist_def by (rule bf_iterate_fixed)
  from bf_dist_sound [OF W S] show "length (bf_dist G S) = nv G"
    by (simp add: bf_sound_def)
qed

text \<open>The entries of \<open>bf_dist\<close> are the distances from the nearest source.\<close>

lemma bf_dist_char:
  assumes W: "wf_graph G" and S: "set S \<subseteq> {..<nv G}" and v: "v < nv G"
  shows "bf_dist G S ! v = enat k \<longleftrightarrow> sp_dist G (set S) v (int k)"
proof
  let ?D = "bf_dist G S"
  from bf_dist_sound [OF W S] have src: "\<forall>s\<in>set S. ?D ! s = 0"
    and wk: "\<forall>x<nv G. \<forall>k. ?D ! x = enat k \<longrightarrow> (\<exists>s\<in>set S. walk G s x (int k))"
    by (simp_all add: bf_sound_def)
  note cl = bf_dist_closed [OF W S]
  {
    assume k: "?D ! v = enat k"
    from wk v k obtain s where s: "s \<in> set S" "walk G s v (int k)" by blast
    show "sp_dist G (set S) v (int k)"
    proof (rule sp_distI [OF s])
      fix s' c assume s': "s' \<in> set S" and w: "walk G s' v c"
      from src s' have "?D ! s' = 0" by blast
      from closed_lower [OF W cl this w] k have "k \<le> nat c" by simp
      with walk_nonneg [OF W w] show "int k \<le> c" by simp
    qed
  }
  {
    assume sp: "sp_dist G (set S) v (int k)"
    from sp_dist_walk [OF sp] obtain s where s: "s \<in> set S" "walk G s v (int k)" by blast
    from src s(1) have "?D ! s = 0" by blast
    from closed_lower [OF W cl this s(2)] have "?D ! v \<le> enat k" by simp
    then obtain j where j: "?D ! v = enat j" by (cases "?D ! v") auto
    from wk v j obtain s2 where s2: "s2 \<in> set S" "walk G s2 v (int j)" by blast
    have "sp_dist G (set S) v (int j)"
    proof (rule sp_distI [OF s2])
      fix s' c assume s': "s' \<in> set S" and w: "walk G s' v c"
      from src s' have "?D ! s' = 0" by blast
      from closed_lower [OF W cl this w] j have "j \<le> nat c" by simp
      with walk_nonneg [OF W w] show "int j \<le> c" by simp
    qed
    from sp_dist_unique [OF this sp] j show "?D ! v = enat k" by simp
  }
qed

lemma find_SomeD: "find P xs = Some x \<Longrightarrow> x \<in> set xs \<and> P x"
  by (induction xs) (auto split: if_splits)

lemma clip_Fin_iff: "clip lmt x = Fin d \<longleftrightarrow> (\<exists>k. x = enat k \<and> d = int k \<and> Fin (int k) \<le> lmt)"
  by (cases x) (auto simp: clip_def)

lemma clip_enat: "Fin (int k) \<le> lmt \<Longrightarrow> clip lmt (enat k) = Fin (int k)"
  by (simp add: clip_def)

lemma length_bf_dist: "wf_graph G \<Longrightarrow> set S \<subseteq> {..<nv G} \<Longrightarrow> length (bf_dist G S) = nv G"
  using bf_dist_sound [of G S] by (simp add: bf_sound_def)

text \<open>The predecessor of a reached vertex that is not a source: one edge back, and nearer
  by the weight of that edge.\<close>

lemma bf_pred_step:
  assumes W: "wf_graph G" and S: "set S \<subseteq> {..<nv G}" and v: "v < nv G" "v \<notin> set S"
    and k: "bf_dist G S ! v = enat k" and lm: "Fin (int k) \<le> lmt"
  shows "\<exists>u w j. bf_pred G S (bf_dist G S) lmt v = int u \<and> edge G u v w \<and>
           bf_dist G S ! u = enat j \<and> j + nat w = k"
proof -
  let ?D = "bf_dist G S"
  let ?P = "\<lambda>(u, v', w). v' = v \<and> u < nv G \<and> ?D ! u + enat (nat w) = ?D ! v"
  from bf_dist_sound [OF W S] have src: "\<forall>s\<in>set S. ?D ! s = 0" by (simp add: bf_sound_def)
  note cl = bf_dist_closed [OF W S]
  from bf_dist_char [OF W S v(1), of k] k have sp: "sp_dist G (set S) v (int k)" by simp
  from sp_dist_walk [OF sp] obtain s where s: "s \<in> set S" "walk G s v (int k)" by blast
  from s(1) v(2) have "s \<noteq> v" by blast
  with s(2) obtain u c w where step: "int k = c + w" "walk G s u c" "edge G u v w"
    by (auto elim: walk.cases)
  from walk_nonneg [OF W step(2)] have c0: "0 \<le> c" .
  from edge_nonneg [OF W step(3)] have w0: "0 \<le> w" .
  from src s(1) have "?D ! s = 0" by blast
  from closed_lower [OF W cl this step(2)] have le: "?D ! u \<le> enat (nat c)" .
  then obtain j where j: "?D ! u = enat j" by (cases "?D ! u") auto
  with le have jc: "j \<le> nat c" by simp
  from cl step(3) have "?D ! v \<le> ?D ! u + enat (nat w)" by (simp add: bf_closed_def)
  with k j have "k \<le> j + nat w" by simp
  moreover from step(1) c0 w0 have "k = nat c + nat w" by linarith
  ultimately have "j + nat w = k" using jc by simp
  with j k have "?D ! u + enat (nat w) = ?D ! v" by simp
  moreover from step(3) have "(u, v, w) \<in> set (arcs G)" "u < nv G" by (simp_all add: edge_def)
  ultimately have "\<exists>x. x \<in> set (arcs G) \<and> ?P x" by blast
  then have "find ?P (arcs G) \<noteq> None" by (simp add: find_None_iff)
  then obtain u' v' w' where f: "find ?P (arcs G) = Some (u', v', w')" by (cases "find ?P (arcs G)") auto
  from find_SomeD [OF this] have m: "(u', v', w') \<in> set (arcs G)" and p: "?P (u', v', w')"
    by blast+
  from p have v': "v' = v" and u': "u' < nv G" and e: "?D ! u' + enat (nat w') = ?D ! v" by simp_all
  from m v' W have ed: "edge G u' v w'" by (simp add: arcs_edge)
  from e k obtain j' where j': "?D ! u' = enat j'" by (cases "?D ! u'") auto
  with e k have sum: "j' + nat w' = k" by simp
  from lm k have "clip lmt (?D ! v) \<noteq> PInf" by (simp add: clip_enat)
  with v(2) f have "bf_pred G S ?D lmt v = int u'" by (simp add: bf_pred_def)
  with ed j' sum show ?thesis by blast
qed

text \<open>The source recorded for a reached vertex is a source at the distance of the vertex.\<close>

lemma bf_source_walk:
  assumes W: "wf_graph G" and S: "set S \<subseteq> {..<nv G}" and v: "v < nv G"
    and k: "bf_dist G S ! v = enat k" and lm: "Fin (int k) \<le> lmt"
  shows "\<exists>s\<in>set S. bf_source G S (bf_dist G S) lmt v = int s \<and> walk G s v (int k)"
proof -
  let ?D = "bf_dist G S"
  let ?P = "\<lambda>s. bf_dist G [s] ! v = ?D ! v"
  from bf_dist_char [OF W S v, of k] k have sp: "sp_dist G (set S) v (int k)" by simp
  from sp_dist_walk [OF sp] obtain s where s: "s \<in> set S" "walk G s v (int k)" by blast
  have one: "\<And>s. s \<in> set S \<Longrightarrow> set [s] \<subseteq> {..<nv G}" using S by auto
  have "sp_dist G (set [s]) v (int k)"
  proof (rule sp_distI [of s _ _ _ "int k"])
    show "s \<in> set [s]" by simp
    show "walk G s v (int k)" by (rule s(2))
  next
    fix s' c assume "s' \<in> set [s]" and w: "walk G s' v c"
    then have "s' \<in> set S" using s(1) by simp
    from sp_dist_le [OF sp this w] show "int k \<le> c" .
  qed
  with bf_dist_char [OF W one [OF s(1)] v, of k] k have "?P s" by simp
  with s(1) have "\<exists>x. x \<in> set S \<and> ?P x" by blast
  then have "find ?P S \<noteq> None" by (simp add: find_None_iff)
  then obtain s' where f: "find ?P S = Some s'" by (cases "find ?P S") auto
  from find_SomeD [OF this] have m: "s' \<in> set S" and p: "?P s'" by blast+
  from p k have "bf_dist G [s'] ! v = enat k" by simp
  with bf_dist_char [OF W one [OF m] v, of k] have "sp_dist G (set [s']) v (int k)" by simp
  from sp_dist_walk [OF this] have wk: "walk G s' v (int k)" by simp
  from lm k have "clip lmt (?D ! v) \<noteq> PInf" by (simp add: clip_enat)
  with f have "bf_source G S ?D lmt v = int s'" by (simp add: bf_source_def)
  with m wk show ?thesis by blast
qed

text \<open>On a graph with positive weights \<open>bf_search\<close> is an exact search.\<close>

lemma bf_result_exact:
  assumes W: "wf_graph G" and P: "positive_weights G" and S: "set S \<subseteq> {..<nv G}"
  shows "exact_result G S lmt
    (map (clip lmt) (bf_dist G S), map (bf_pred G S (bf_dist G S) lmt) [0..<nv G],
     map (bf_source G S (bf_dist G S) lmt) [0..<nv G])"
proof -
  let ?D = "bf_dist G S"
  let ?ds = "map (clip lmt) ?D"
  let ?pr = "map (bf_pred G S ?D lmt) [0..<nv G]"
  let ?so = "map (bf_source G S ?D lmt) [0..<nv G]"
  note len = length_bf_dist [OF W S]
  have ds: "\<And>v. v < nv G \<Longrightarrow> ?ds ! v = clip lmt (?D ! v)" using len by simp
  have pr: "\<And>v. v < nv G \<Longrightarrow> ?pr ! v = bf_pred G S ?D lmt v" by simp
  have so: "\<And>v. v < nv G \<Longrightarrow> ?so ! v = bf_source G S ?D lmt v" by simp
  have c1: "length ?ds = nv G \<and> length ?pr = nv G \<and> length ?so = nv G"
    using len by simp
  have c2: "\<forall>v<nv G. \<forall>d. ?ds ! v = Fin d \<longleftrightarrow> sp_dist G (set S) v d \<and> Fin d \<le> lmt"
  proof (intro allI impI iffI)
    fix v d assume v: "v < nv G" and d: "?ds ! v = Fin d"
    with ds obtain k where k: "?D ! v = enat k" "d = int k" "Fin (int k) \<le> lmt"
      by (auto simp: clip_Fin_iff)
    with bf_dist_char [OF W S v, of k] show "sp_dist G (set S) v d \<and> Fin d \<le> lmt" by simp
  next
    fix v d assume v: "v < nv G" and h: "sp_dist G (set S) v d \<and> Fin d \<le> lmt"
    from sp_dist_nonneg [OF W] h have "0 \<le> d" by blast
    then obtain k where k: "d = int k" by (metis nat_0_le)
    with h bf_dist_char [OF W S v, of k] have "?D ! v = enat k" by simp
    with h k ds [OF v] show "?ds ! v = Fin d" by (simp add: clip_enat)
  qed
  have c3: "\<forall>v<nv G. v \<in> set S \<or> ?ds ! v = PInf \<longrightarrow> ?pr ! v = - 9999"
    by (simp add: bf_pred_def len)
  have step: "\<And>v d. v < nv G \<Longrightarrow> ?ds ! v = Fin d \<Longrightarrow> v \<notin> set S \<Longrightarrow>
      \<exists>u w j k. ?pr ! v = int u \<and> edge G u v w \<and> ?D ! u = enat j \<and> ?D ! v = enat k \<and>
        d = int k \<and> j + nat w = k \<and> ?ds ! u = Fin (int j)"
  proof -
    fix v d assume v: "v < nv G" and d: "?ds ! v = Fin d" and ns: "v \<notin> set S"
    from d ds [OF v] obtain k where k: "?D ! v = enat k" "d = int k" "Fin (int k) \<le> lmt"
      by (auto simp: clip_Fin_iff)
    from bf_pred_step [OF W S v ns k(1,3)] obtain u w j where
      u: "bf_pred G S ?D lmt v = int u" "edge G u v w" "?D ! u = enat j" "j + nat w = k"
      by blast
    from u(2) have ul: "u < nv G" by (simp add: edge_def)
    from u(4) have "Fin (int j) \<le> Fin (int k)" by simp
    from this k(3) have "Fin (int j) \<le> lmt" by (rule order_trans)
    with u(3) ds [OF ul] have dsu: "?ds ! u = Fin (int j)" by (simp add: clip_enat)
    from u(1) pr [OF v] have "?pr ! v = int u" by simp
    from this u(2,3) k(1,2) u(4) dsu show "\<exists>u w j k. ?pr ! v = int u \<and> edge G u v w \<and> ?D ! u = enat j \<and>
        ?D ! v = enat k \<and> d = int k \<and> j + nat w = k \<and> ?ds ! u = Fin (int j)"
      by blast
  qed
  have c4: "\<forall>v<nv G. \<forall>d. ?ds ! v = Fin d \<and> v \<notin> set S \<longrightarrow>
        (\<exists>u w du. ?pr ! v = int u \<and> edge G u v w \<and> ?ds ! u = Fin du \<and> du + w = d)"
  proof (intro allI impI)
    fix v d assume v: "v < nv G" and h: "?ds ! v = Fin d \<and> v \<notin> set S"
    with step [of v d] obtain u w j k where
      u: "?pr ! v = int u" "edge G u v w" "d = int k" "j + nat w = k" "?ds ! u = Fin (int j)"
      by blast
    from edge_nonneg [OF W u(2)] u(3,4) have "int j + w = d" by simp
    with u show "\<exists>u w du. ?pr ! v = int u \<and> edge G u v w \<and> ?ds ! u = Fin du \<and> du + w = d"
      by blast
  qed
  define rank where "rank v = (case ?D ! v of enat k \<Rightarrow> k | \<infinity> \<Rightarrow> 0)" for v
  have "\<forall>v<nv G. ?ds ! v \<noteq> PInf \<and> v \<notin> set S \<longrightarrow> rank (nat (?pr ! v)) < rank v"
  proof (intro allI impI)
    fix v assume v: "v < nv G" and h: "?ds ! v \<noteq> PInf \<and> v \<notin> set S"
    then obtain d where "?ds ! v = Fin d" by (cases "?ds ! v") auto
    with step [of v d] v h obtain u w j k where
      u: "?pr ! v = int u" "edge G u v w" "?D ! u = enat j" "?D ! v = enat k" "j + nat w = k"
      by blast
    from edge_positive [OF P u(2)] u(5) have "j < k" by simp
    with u(1,3,4) show "rank (nat (?pr ! v)) < rank v" by (simp add: rank_def)
  qed
  then have c5: "\<exists>rank :: nat \<Rightarrow> nat. \<forall>v<nv G. ?ds ! v \<noteq> PInf \<and> v \<notin> set S \<longrightarrow> rank (nat (?pr ! v)) < rank v"
    by blast
  have c6: "\<forall>v<nv G. \<forall>d. ?ds ! v = Fin d \<longrightarrow> (\<exists>s\<in>set S. ?so ! v = int s \<and> walk G s v d)"
  proof (intro allI impI)
    fix v d assume v: "v < nv G" and d: "?ds ! v = Fin d"
    from d ds [OF v] obtain k where k: "?D ! v = enat k" "d = int k" "Fin (int k) \<le> lmt"
      by (auto simp: clip_Fin_iff)
    from bf_source_walk [OF W S v k(1,3)] k(2) so [OF v]
    show "\<exists>s\<in>set S. ?so ! v = int s \<and> walk G s v d" by simp
  qed
  have c7: "\<forall>v<nv G. ?ds ! v = PInf \<longrightarrow> ?so ! v = - 9999"
    by (simp add: bf_source_def len)
  from c1 c2 c3 c4 c5 c6 c7 show ?thesis
    unfolding exact_result_def prod.case by blast
qed

lemma bf_exact:
  assumes "wf_graph G" and "positive_weights G"
  shows "exact_search G bf_search"
  unfolding exact_search_def
proof (intro allI impI)
  fix S lmt assume "S \<noteq> [] \<and> set S \<subseteq> {..<nv G} \<and> Fin 0 \<le> lmt"
  then have S: "set S \<subseteq> {..<nv G}" by simp
  have "bf_search G S lmt = Inr (map (clip lmt) (bf_dist G S),
     map (bf_pred G S (bf_dist G S) lmt) [0..<nv G], map (bf_source G S (bf_dist G S) lmt) [0..<nv G])"
    by (simp add: bf_search_def Let_def)
  with bf_result_exact [OF assms S, of lmt]
  show "\<exists>res. bf_search G S lmt = Inr res \<and> exact_result G S lmt res" by blast
qed

section \<open>What an exact search gives the loop\<close>

lemma exact_lengths:
  "exact_result G S lmt (ds, pr, so) \<Longrightarrow> length ds = nv G \<and> length pr = nv G \<and> length so = nv G"
  unfolding exact_result_def by simp

lemma exact_dist_iff:
  "exact_result G S lmt (ds, pr, so) \<Longrightarrow> v < nv G \<Longrightarrow>
     ds ! v = Fin d \<longleftrightarrow> sp_dist G (set S) v d \<and> Fin d \<le> lmt"
  unfolding exact_result_def by simp

lemma exact_pred:
  "exact_result G S lmt (ds, pr, so) \<Longrightarrow> v < nv G \<Longrightarrow> ds ! v = Fin d \<Longrightarrow> v \<notin> set S \<Longrightarrow>
     \<exists>u w du. pr ! v = int u \<and> edge G u v w \<and> ds ! u = Fin du \<and> du + w = d"
  unfolding exact_result_def by simp

lemma exact_rank:
  "exact_result G S lmt (ds, pr, so) \<Longrightarrow>
     \<exists>rank :: nat \<Rightarrow> nat. \<forall>v<nv G. ds ! v \<noteq> PInf \<and> v \<notin> set S \<longrightarrow> rank (nat (pr ! v)) < rank v"
  unfolding exact_result_def by simp

lemma exact_source:
  "exact_result G S lmt (ds, pr, so) \<Longrightarrow> v < nv G \<Longrightarrow> ds ! v = Fin d \<Longrightarrow>
     \<exists>s\<in>set S. so ! v = int s \<and> walk G s v d"
  unfolding exact_result_def by simp

lemma exact_reached_walk:
  assumes "exact_result G S lmt (ds, pr, so)" and "v < nv G" and "ds ! v = Fin d"
  shows "Fin d \<le> lmt \<and> (\<exists>s\<in>set S. walk G s v d) \<and> (\<forall>s\<in>set S. \<forall>c. walk G s v c \<longrightarrow> d \<le> c)"
  using exact_dist_iff [OF assms(1,2), of d] assms(3) by (simp add: sp_dist_def)


lemma exact_source_zero:
  assumes ex: "exact_result G S lmt (ds, pr, so)" and wf: "wf_graph G"
    and s: "s \<in> set S" "s < nv G" and l: "Fin 0 \<le> lmt"
  shows "ds ! s = Fin 0"
  using exact_dist_iff [OF ex s(2), of 0] sp_dist_source [OF wf s] l by simp


text \<open>The argument checks of \<open>dijkstra\<close> pass for vertices in range and a limit that is not
  negative, and only then.\<close>

lemma dijkstra_exact:
  assumes "exact_search G orc" and "idx \<noteq> []" and "\<forall>i\<in>set idx. 0 \<le> i \<and> i < int (nv G)"
    and "Fin 0 \<le> lmt"
  shows "\<exists>ds pr so. dijkstra orc G idx lmt = Inr (ds, pr, so) \<and> exact_result G (map nat idx) lmt (ds, pr, so)"
proof -
  have norm: "map (\<lambda>i. if i < 0 then i + int (nv G) else i) idx = idx"
    using assms(3) by (intro map_idI) auto
  have chk: "\<not> list_ex (\<lambda>i. i < 0 \<or> int (nv G) \<le> i) idx"
    using assms(3) by (auto simp: list_ex_iff)
  have lim: "\<not> lmt < Fin 0" using assms(4) by (simp add: not_less)
  have eq: "dijkstra orc G idx lmt = orc G (map nat idx) lmt"
    unfolding dijkstra_def Let_def norm using chk lim by simp
  have "map nat idx \<noteq> []" using assms(2) by simp
  moreover have "set (map nat idx) \<subseteq> {..<nv G}"
    using assms(3) by auto
  ultimately obtain res where "orc G (map nat idx) lmt = Inr res" "exact_result G (map nat idx) lmt res"
    using assms(1,4) unfolding exact_search_def by blast
  with eq show ?thesis by (cases res) auto
qed

lemma dijkstra_limit:
  assumes "dijkstra orc G idx lmt = Inr res"
  shows "Fin 0 \<le> lmt"
proof (rule ccontr)
  assume "\<not> Fin 0 \<le> lmt"
  then have "lmt < Fin 0" by (simp add: not_le)
  with assms show False
    by (simp add: dijkstra_def Let_def split: if_splits)
qed

section \<open>The walks up the predecessor arrays\<close>

lemma get_path_loop_exact:
  assumes ex: "exact_result G [t] lmt (ds, pr, so)" and t: "t < nv G"
    and rank: "\<forall>v<nv G. ds ! v \<noteq> PInf \<and> v \<notin> set [t] \<longrightarrow> rank (nat (pr ! v)) < (rank v :: nat)"
  shows "p < nv G \<Longrightarrow> ds ! p \<noteq> PInf \<Longrightarrow>
    \<exists>xs. get_path_loop (int t) pr (int p) acc = Some (Inr (acc @ xs)) \<and> pred_chain G ds t (int p # xs)"
proof (induction "rank p" arbitrary: p acc rule: less_induct)
  case less
  show ?case
  proof (cases "p = t")
    case True
    have "get_path_loop (int t) pr (int p) acc = Some (Inr (acc @ []))"
      by (subst get_path_loop.simps) (simp add: True)
    moreover have "pred_chain G ds t (int p # [])"
      using True less.prems by (simp add: pred_chain_def)
    ultimately show ?thesis by blast
  next
    case False
    from less.prems obtain d where d: "ds ! p = Fin d" by (cases "ds ! p") auto
    from False have "p \<notin> set [t]" by simp
    from exact_pred [OF ex less.prems(1) d this]
    obtain u w du where u: "pr ! p = int u" "edge G u p w" "ds ! u = Fin du" "du + w = d"
      by blast
    from u(2) have un: "u < nv G" by (simp add: edge_def)
    from rank less.prems False u(1) have "rank u < rank p" by auto
    from less.hyps [OF this un, of "acc @ [int u]"] u(3)
    obtain xs where xs: "get_path_loop (int t) pr (int u) (acc @ [int u]) = Some (Inr ((acc @ [int u]) @ xs))"
      "pred_chain G ds t (int u # xs)"
      by auto
    from exact_lengths [OF ex] less.prems(1) have "np_get pr (int p) = Inr (pr ! p)"
      by (simp add: np_get_int)
    with False u(1) xs(1)
    have "get_path_loop (int t) pr (int p) acc = Some (Inr (acc @ (int u # xs)))"
      by (subst get_path_loop.simps) simp
    moreover have "pred_chain G ds t (int p # int u # xs)"
      using xs(2) u d less.prems by (auto simp: pred_chain_def)
    ultimately show ?thesis by blast
  qed
qed

text \<open>
  \<open>get_path\<close> on the arrays of a search from \<open>t\<close>, for a vertex \<open>b\<close> the search has reached:
  it returns, and what it returns starts at \<open>t\<close>, ends at \<open>b\<close> and goes along edges, every
  step farther from \<open>t\<close> by the weight of its edge.
\<close>

lemma get_path_exact:
  assumes ex: "exact_result G [t] lmt (ds, pr, so)" and t: "t < nv G"
    and b: "b < nv G" "ds ! b \<noteq> PInf"
  shows "\<exists>path. get_path (int t) (int b) pr = Some (Inr path) \<and> path_from G ds t b path"
proof -
  from exact_rank [OF ex] obtain rank :: "nat \<Rightarrow> nat" where
    "\<forall>v<nv G. ds ! v \<noteq> PInf \<and> v \<notin> set [t] \<longrightarrow> rank (nat (pr ! v)) < rank v" ..
  from get_path_loop_exact [OF ex t this b, of "[int b]"]
  obtain xs where xs: "get_path_loop (int t) pr (int b) [int b] = Some (Inr (int b # xs))"
    "pred_chain G ds t (int b # xs)"
    by auto
  have "get_path (int t) (int b) pr = Some (Inr (rev (int b # xs)))"
    by (simp add: get_path_def xs(1) ok_def)
  moreover have "path_from G ds t b (rev (int b # xs))"
  proof -
    from xs(2) have l: "last (int b # xs) = int t"
      and r: "\<forall>x\<in>set (int b # xs). 0 \<le> x \<and> x < int (nv G) \<and> ds ! nat x \<noteq> PInf"
      and s: "successively (\<lambda>x y. \<exists>w a. edge G (nat y) (nat x) w \<and> ds ! nat y = Fin a \<and> ds ! nat x = Fin (a + w)) (int b # xs)"
      by (simp_all add: pred_chain_def)
    have "hd (rev (int b # xs)) = int t"
      using l by (simp only: hd_rev)
    moreover have "last (rev (int b # xs)) = int b"
      by (simp only: last_rev list.sel)
    moreover have "successively (\<lambda>x y. \<exists>w a. edge G (nat x) (nat y) w \<and> ds ! nat x = Fin a \<and> ds ! nat y = Fin (a + w))
        (rev (int b # xs))"
      using s by (simp only: successively_rev)
    ultimately show ?thesis
      using r unfolding path_from_def by simp
  qed
  ultimately show ?thesis by blast
qed


section \<open>One iteration of the loop\<close>

lemma teasar_iteration_alt:
  "teasar_iteration orc G rds rp inv_d rm st =
     rbind (Some (select_target rds (valid st))) (\<lambda>target.
     rbind (find_max_branch rp (visited_nodes st) (int target)) (\<lambda>max_branch.
     rbind (Some (max_path_length rds target max_branch)) (\<lambda>limit.
     rbind (Some (dijkstra orc G [int target] limit)) (\<lambda>(ds, pred_t, srcs_t).
     rbind (Some (closest_visited ds (visited_nodes st))) (\<lambda>branch.
     rbind (get_path (int target) branch pred_t) (\<lambda>path.
     rbind (Some (np_get ds branch)) (\<lambda>d_branch.
     if d_branch = PInf then raise AssertionError else
     rbind (Some (dijkstra orc G path inv_d)) (\<lambda>(dm, pred_m, sources).
     if length dm \<noteq> length (valid st) \<or> (rm \<and> length sources \<noteq> length dm) then raise IndexError else
     ok (next_state rm st path d_branch dm sources)))))))))"
  by (simp only: teasar_iteration_def next_state_def)

lemma rbind_okE:
  assumes "rbind m f = Some (Inr y)"
  obtains x where "m = Some (Inr x)" and "f x = Some (Inr y)"
  using assms by (auto simp: rbind_eq_ok)

lemma teasar_iteration_okD:
  assumes "teasar_iteration orc G rds rp inv_d rm st = Some (Inr st')"
  shows "\<exists>target max_branch limit ds pred_t srcs_t branch path d_branch dm pred_m sources.
        select_target rds (valid st) = Inr target \<and>
        find_max_branch rp (visited_nodes st) (int target) = Some (Inr max_branch) \<and>
        max_path_length rds target max_branch = Inr limit \<and>
        dijkstra orc G [int target] limit = Inr (ds, pred_t, srcs_t) \<and>
        closest_visited ds (visited_nodes st) = Inr branch \<and>
        get_path (int target) branch pred_t = Some (Inr path) \<and>
        np_get ds branch = Inr d_branch \<and> d_branch \<noteq> PInf \<and>
        dijkstra orc G path inv_d = Inr (dm, pred_m, sources) \<and>
        length dm = length (valid st) \<and> (rm \<longrightarrow> length sources = length dm) \<and>
        st' = next_state rm st path d_branch dm sources"
proof -
  from assms [unfolded teasar_iteration_alt]
  obtain target where e1: "Some (select_target rds (valid st)) = Some (Inr target)"
    and r1: "rbind (find_max_branch rp (visited_nodes st) (int target)) (\<lambda>max_branch.
     rbind (Some (max_path_length rds target max_branch)) (\<lambda>limit.
     rbind (Some (dijkstra orc G [int target] limit)) (\<lambda>(ds, pred_t, srcs_t).
     rbind (Some (closest_visited ds (visited_nodes st))) (\<lambda>branch.
     rbind (get_path (int target) branch pred_t) (\<lambda>path.
     rbind (Some (np_get ds branch)) (\<lambda>d_branch.
     if d_branch = PInf then raise AssertionError else
     rbind (Some (dijkstra orc G path inv_d)) (\<lambda>(dm, pred_m, sources).
     if length dm \<noteq> length (valid st) \<or> (rm \<and> length sources \<noteq> length dm) then raise IndexError else
     ok (next_state rm st path d_branch dm sources)))))))) = Some (Inr st')"
    by (rule rbind_okE)
  from r1 obtain max_branch where s2: "find_max_branch rp (visited_nodes st) (int target) = Some (Inr max_branch)"
    and r2: "rbind (Some (max_path_length rds target max_branch)) (\<lambda>limit.
     rbind (Some (dijkstra orc G [int target] limit)) (\<lambda>(ds, pred_t, srcs_t).
     rbind (Some (closest_visited ds (visited_nodes st))) (\<lambda>branch.
     rbind (get_path (int target) branch pred_t) (\<lambda>path.
     rbind (Some (np_get ds branch)) (\<lambda>d_branch.
     if d_branch = PInf then raise AssertionError else
     rbind (Some (dijkstra orc G path inv_d)) (\<lambda>(dm, pred_m, sources).
     if length dm \<noteq> length (valid st) \<or> (rm \<and> length sources \<noteq> length dm) then raise IndexError else
     ok (next_state rm st path d_branch dm sources))))))) = Some (Inr st')"
    by (rule rbind_okE)
  from r2 obtain limit where e3: "Some (max_path_length rds target max_branch) = Some (Inr limit)"
    and r3: "rbind (Some (dijkstra orc G [int target] limit)) (\<lambda>(ds, pred_t, srcs_t).
     rbind (Some (closest_visited ds (visited_nodes st))) (\<lambda>branch.
     rbind (get_path (int target) branch pred_t) (\<lambda>path.
     rbind (Some (np_get ds branch)) (\<lambda>d_branch.
     if d_branch = PInf then raise AssertionError else
     rbind (Some (dijkstra orc G path inv_d)) (\<lambda>(dm, pred_m, sources).
     if length dm \<noteq> length (valid st) \<or> (rm \<and> length sources \<noteq> length dm) then raise IndexError else
     ok (next_state rm st path d_branch dm sources)))))) = Some (Inr st')"
    by (rule rbind_okE)
  from r3 obtain res1 where e4: "Some (dijkstra orc G [int target] limit) = Some (Inr res1)"
    and r4': "(case res1 of (ds, pred_t, srcs_t) \<Rightarrow>
     rbind (Some (closest_visited ds (visited_nodes st))) (\<lambda>branch.
     rbind (get_path (int target) branch pred_t) (\<lambda>path.
     rbind (Some (np_get ds branch)) (\<lambda>d_branch.
     if d_branch = PInf then raise AssertionError else
     rbind (Some (dijkstra orc G path inv_d)) (\<lambda>(dm, pred_m, sources).
     if length dm \<noteq> length (valid st) \<or> (rm \<and> length sources \<noteq> length dm) then raise IndexError else
     ok (next_state rm st path d_branch dm sources)))))) = Some (Inr st')"
    by (rule rbind_okE)
  obtain ds pred_t srcs_t where res1: "res1 = (ds, pred_t, srcs_t)" by (cases res1) auto
  from r4' have r4: "rbind (Some (closest_visited ds (visited_nodes st))) (\<lambda>branch.
     rbind (get_path (int target) branch pred_t) (\<lambda>path.
     rbind (Some (np_get ds branch)) (\<lambda>d_branch.
     if d_branch = PInf then raise AssertionError else
     rbind (Some (dijkstra orc G path inv_d)) (\<lambda>(dm, pred_m, sources).
     if length dm \<noteq> length (valid st) \<or> (rm \<and> length sources \<noteq> length dm) then raise IndexError else
     ok (next_state rm st path d_branch dm sources))))) = Some (Inr st')"
    unfolding res1 by (simp only: prod.case)
  from r4 obtain branch where e5: "Some (closest_visited ds (visited_nodes st)) = Some (Inr branch)"
    and r5: "rbind (get_path (int target) branch pred_t) (\<lambda>path.
     rbind (Some (np_get ds branch)) (\<lambda>d_branch.
     if d_branch = PInf then raise AssertionError else
     rbind (Some (dijkstra orc G path inv_d)) (\<lambda>(dm, pred_m, sources).
     if length dm \<noteq> length (valid st) \<or> (rm \<and> length sources \<noteq> length dm) then raise IndexError else
     ok (next_state rm st path d_branch dm sources)))) = Some (Inr st')"
    by (rule rbind_okE)
  from r5 obtain path where s6: "get_path (int target) branch pred_t = Some (Inr path)"
    and r6: "rbind (Some (np_get ds branch)) (\<lambda>d_branch.
     if d_branch = PInf then raise AssertionError else
     rbind (Some (dijkstra orc G path inv_d)) (\<lambda>(dm, pred_m, sources).
     if length dm \<noteq> length (valid st) \<or> (rm \<and> length sources \<noteq> length dm) then raise IndexError else
     ok (next_state rm st path d_branch dm sources))) = Some (Inr st')"
    by (rule rbind_okE)
  from r6 obtain d_branch where e7: "Some (np_get ds branch) = Some (Inr d_branch)"
    and r7: "(if d_branch = PInf then raise AssertionError else
     rbind (Some (dijkstra orc G path inv_d)) (\<lambda>(dm, pred_m, sources).
     if length dm \<noteq> length (valid st) \<or> (rm \<and> length sources \<noteq> length dm) then raise IndexError else
     ok (next_state rm st path d_branch dm sources))) = Some (Inr st')"
    by (rule rbind_okE)
  from r7 have s8: "d_branch \<noteq> PInf"
    by (cases "d_branch = PInf") (simp_all only: if_True raise_def, simp_all)
  from r7 s8 have r8: "rbind (Some (dijkstra orc G path inv_d)) (\<lambda>(dm, pred_m, sources).
     if length dm \<noteq> length (valid st) \<or> (rm \<and> length sources \<noteq> length dm) then raise IndexError else
     ok (next_state rm st path d_branch dm sources)) = Some (Inr st')"
    by (simp only: if_False)
  from r8 obtain res2 where e9: "Some (dijkstra orc G path inv_d) = Some (Inr res2)"
    and r9': "(case res2 of (dm, pred_m, sources) \<Rightarrow>
     if length dm \<noteq> length (valid st) \<or> (rm \<and> length sources \<noteq> length dm) then raise IndexError else
     ok (next_state rm st path d_branch dm sources)) = Some (Inr st')"
    by (rule rbind_okE)
  obtain dm pred_m sources where res2: "res2 = (dm, pred_m, sources)" by (cases res2) auto
  from r9' have r9: "(if length dm \<noteq> length (valid st) \<or> (rm \<and> length sources \<noteq> length dm) then raise IndexError else
     ok (next_state rm st path d_branch dm sources)) = Some (Inr st')"
    unfolding res2 by (simp only: prod.case)
  have s10: "\<not> (length dm \<noteq> length (valid st) \<or> (rm \<and> length sources \<noteq> length dm))"
  proof
    assume "length dm \<noteq> length (valid st) \<or> (rm \<and> length sources \<noteq> length dm)"
    with r9 have "raise IndexError = Some (Inr st')" by (simp only: if_True)
    then show False by (simp add: raise_def)
  qed
  with r9 have "ok (next_state rm st path d_branch dm sources) = Some (Inr st')"
    by (simp only: if_False)
  then have s11: "st' = next_state rm st path d_branch dm sources"
    by (simp add: ok_def)
  from s10 have s12: "length dm = length (valid st)" "rm \<longrightarrow> length sources = length dm"
    by auto
  from e1 have s1: "select_target rds (valid st) = Inr target" by simp
  from e3 have s3: "max_path_length rds target max_branch = Inr limit" by simp
  from e4 res1 have s4: "dijkstra orc G [int target] limit = Inr (ds, pred_t, srcs_t)" by simp
  from e5 have s5: "closest_visited ds (visited_nodes st) = Inr branch" by simp
  from e7 have s7: "np_get ds branch = Inr d_branch" by simp
  from e9 res2 have s9: "dijkstra orc G path inv_d = Inr (dm, pred_m, sources)" by simp
  from s1 s2 s3 s4 s5 s6 s7 s8 s9 s12 s11 show ?thesis
    by (intro exI conjI)
qed


lemma closest_visited_exact:
  assumes "length ds = nv G" and "wf_state G st"
  shows "\<exists>b. closest_visited ds (visited_nodes st) = Inr (int b) \<and> int b \<in> set (visited_nodes st) \<and>
             b < nv G \<and> (\<forall>x\<in>set (visited_nodes st). ds ! b \<le> ds ! nat x)"
proof -
  let ?vis = "visited_nodes st"
  from assms have rng: "\<forall>x\<in>set ?vis. 0 \<le> x \<and> x < int (length ds)" and ne: "?vis \<noteq> []"
    by (simp_all add: wf_state_def)
  have tk: "np_take ds ?vis = Inr (map (\<lambda>i. ds ! nat i) ?vis)"
    using rng by (rule np_take_inrange)
  from ne have "map (\<lambda>i. ds ! nat i) ?vis \<noteq> []" by simp
  from argmin_spec [OF this] obtain k where k: "argmin (map (\<lambda>i. ds ! nat i) ?vis) = Inr k"
    "k < length ?vis" "\<forall>x\<in>set (map (\<lambda>i. ds ! nat i) ?vis). map (\<lambda>i. ds ! nat i) ?vis ! k \<le> x"
    by auto
  define b where "b = nat (?vis ! k)"
  from k(2) have mem: "?vis ! k \<in> set ?vis" by simp
  with rng assms(1) have bk: "int b = ?vis ! k" and bn: "b < nv G" by (auto simp: b_def)
  have cv: "closest_visited ds ?vis = Inr (int b)"
    by (simp add: closest_visited_def tk k(1) bk)
  have mn: "\<forall>x\<in>set ?vis. ds ! b \<le> ds ! nat x"
    using k(2,3) by (simp add: b_def)
  from mem bk have m2: "int b \<in> set ?vis" by simp
  from cv m2 bn mn show ?thesis by blast
qed

text \<open>What an iteration that returns has done.\<close>

lemma iteration_char:
  assumes E: "exact_search G orc" and W: "wf_graph G" and L: "length rds = nv G"
    and S: "wf_state G st"
    and it: "teasar_iteration orc G rds rp inv_d rm st = Some (Inr st')"
  shows "\<exists>t lmt ds pt sot b d path dm pm srcs.
      select_target rds (valid st) = Inr t \<and> t < nv G \<and>
      exact_result G [t] lmt (ds, pt, sot) \<and>
      int b \<in> set (visited_nodes st) \<and> b < nv G \<and> ds ! b = Fin d \<and>
      (\<forall>x\<in>set (visited_nodes st). ds ! b \<le> ds ! nat x) \<and>
      path_from G ds t b path \<and>
      Fin 0 \<le> inv_d \<and> exact_result G (map nat path) inv_d (dm, pm, srcs) \<and>
      st' = next_state rm st path (Fin d) dm srcs"
proof -
  from it obtain target max_branch limit ds pred_t srcs_t branch path d_branch dm pred_m sources where
    st: "select_target rds (valid st) = Inr target"
    and dj1: "dijkstra orc G [int target] limit = Inr (ds, pred_t, srcs_t)"
    and cv: "closest_visited ds (visited_nodes st) = Inr branch"
    and gp: "get_path (int target) branch pred_t = Some (Inr path)"
    and db: "np_get ds branch = Inr d_branch" "d_branch \<noteq> PInf"
    and dj2: "dijkstra orc G path inv_d = Inr (dm, pred_m, sources)"
    and st': "st' = next_state rm st path d_branch dm sources"
    using teasar_iteration_okD [OF it] by blast
  from select_target_spec [OF st] S have t: "target < nv G"
    by (simp add: wf_state_def)
  have l1: "Fin 0 \<le> limit" using dj1 by (rule dijkstra_limit)
  from t have "\<forall>i\<in>set [int target]. 0 \<le> i \<and> i < int (nv G)" by simp
  from dijkstra_exact [OF E _ this l1] dj1
  have ex1: "exact_result G [target] limit (ds, pred_t, srcs_t)" by simp
  from exact_lengths [OF ex1] have lds: "length ds = nv G" by simp
  from closest_visited_exact [OF lds S] cv obtain b where
    b: "branch = int b" "int b \<in> set (visited_nodes st)" "b < nv G"
       "\<forall>x\<in>set (visited_nodes st). ds ! b \<le> ds ! nat x"
    by auto
  from db b(1,3) lds have dbv: "d_branch = ds ! b" by (simp add: np_get_int)
  with db(2) obtain d where d: "ds ! b = Fin d" by (cases "ds ! b") auto
  from get_path_exact [OF ex1 t b(3)] d gp b(1) have pf: "path_from G ds target b path"
    by auto
  then have rng: "\<forall>i\<in>set path. 0 \<le> i \<and> i < int (nv G)" and ne: "path \<noteq> []"
    by (simp_all add: path_from_def)
  have l2: "Fin 0 \<le> inv_d" using dj2 by (rule dijkstra_limit)
  from dijkstra_exact [OF E ne rng l2] dj2
  have ex2: "exact_result G (map nat path) inv_d (dm, pred_m, sources)" by simp
  from st' dbv d have st'': "st' = next_state rm st path (Fin d) dm sources" by simp
  show ?thesis
    by (intro exI conjI)
      (rule st, rule t, rule ex1, rule b(2), rule b(3), rule d, rule b(4), rule pf, rule l2, rule ex2, rule st'')
qed


section \<open>The loop and its invariants\<close>

lemma reachable_prepend:
  assumes "list_ex id (valid st)"
    and "teasar_iteration orc G rds rp inv_d rm st = Some (Inr st')"
  shows "reachable orc G rds rp inv_d rm st' fin \<Longrightarrow> reachable orc G rds rp inv_d rm st fin"
proof (induction rule: reachable.induct)
  case reach_init
  from reachable.reach_init [of orc G rds rp inv_d rm st] assms show ?case
    by (rule reach_step)
next
  case (reach_step s s')
  from reach_step.IH reach_step.hyps(2,3) show ?case
    by (rule reachable.reach_step)
qed

text \<open>A loop that returns has passed through reachable states and ends with no valid vertex.\<close>

lemma loop_reachable_aux:
  assumes "teasar_loop orc G rds rp inv_d rm st = Some y"
  shows "\<forall>fin. y = Inr fin \<longrightarrow> reachable orc G rds rp inv_d rm st fin \<and> \<not> list_ex id (valid fin)"
proof (rule teasar_loop.raw_induct [where P = "\<lambda>orc G rds rp inv_d rm st y.
    \<forall>fin. y = Inr fin \<longrightarrow> reachable orc G rds rp inv_d rm st fin \<and> \<not> list_ex id (valid fin)", OF _ assms])
  fix loop orc G rds rp inv_d rm st y
  assume IH: "\<And>orc G rds rp inv_d rm st y. loop orc G rds rp inv_d rm st = Some y \<Longrightarrow>
     \<forall>fin. y = Inr fin \<longrightarrow> reachable orc G rds rp inv_d rm st fin \<and> \<not> list_ex id (valid fin)"
    and body: "(if list_ex id (valid st)
      then case teasar_iteration orc G rds rp inv_d rm st of None \<Rightarrow> None
        | Some (Inl e) \<Rightarrow> Some (Inl e)
        | Some (Inr st') \<Rightarrow> loop orc G rds rp inv_d rm st'
      else Some (Inr st)) = Some y"
  show "\<forall>fin. y = Inr fin \<longrightarrow> reachable orc G rds rp inv_d rm st fin \<and> \<not> list_ex id (valid fin)"
  proof (cases "list_ex id (valid st)")
    case False
    with body have "y = Inr st" by simp
    with False show ?thesis by (auto intro: reach_init)
  next
    case True
    show ?thesis
    proof (intro allI impI)
      fix fin assume y: "y = Inr fin"
      from body True y obtain st' where it: "teasar_iteration orc G rds rp inv_d rm st = Some (Inr st')"
        and rec: "loop orc G rds rp inv_d rm st' = Some (Inr fin)"
        by (auto split: option.splits sum.splits)
      from IH [OF rec] have "reachable orc G rds rp inv_d rm st' fin \<and> \<not> list_ex id (valid fin)"
        by simp
      with reachable_prepend [OF True it]
      show "reachable orc G rds rp inv_d rm st fin \<and> \<not> list_ex id (valid fin)" by blast
    qed
  qed
qed

lemma loop_reachable:
  "teasar_loop orc G rds rp inv_d rm st = Some (Inr fin) \<Longrightarrow>
     reachable orc G rds rp inv_d rm st fin \<and> \<not> list_ex id (valid fin)"
  using loop_reachable_aux by blast

text \<open>What the prelude has established when it returns.\<close>

lemma prelude_char:
  assumes "teasar_prelude orc frf G root_opt valid_opt rds_opt rp_opt = Some (Inr (rds, rp, st0))"
  shows "length (valid st0) = nv G \<and> length rds = nv G \<and>
         (\<exists>x. visited_nodes st0 = [x]) \<and> paths st0 = [] \<and> path_lengths st0 = [] \<and>
         mesh_to_skeleton_dist st0 = replicate (nv G) PInf \<and>
         mesh_to_skeleton_map st0 = replicate (nv G) None \<and>
         (\<forall>v<nv G. valid st0 ! v \<longrightarrow> rds ! v \<noteq> PInf)"
proof -
  from assms [unfolded teasar_prelude_def Let_def]
  obtain x1 where "(case x1 of (root_v, root_pred1, root_ds1, valid1) \<Rightarrow>
      rbind (case root_ds1 of
               None \<Rightarrow> rbind (Some (dijkstra orc G [root_v] PInf)) (\<lambda>(ds, pr, srcs). ok (ds, Some pr))
             | Some ds \<Rightarrow> ok (ds, root_pred1)) (\<lambda>(root_ds, root_pred).
      rbind (case valid1 of
               None \<Rightarrow> Some (np_set (replicate (nv G) True) root_v False)
             | Some v \<Rightarrow> if length v \<noteq> nv G
                         then raise (ValueError ''valid must be length of vertices'') else ok v) (\<lambda>valid0.
      if length root_ds \<noteq> length valid0 then raise (ValueError ''operands could not be broadcast together'')
      else if list_ex (\<lambda>(d, b). d = PInf \<and> b) (zip root_ds valid0)
        then raise (ValueError ''all valid vertices should be reachable from root'')
      else ok (root_ds, root_pred,
               \<lparr>valid = valid0, visited_nodes = [root_v], paths = [], path_lengths = [],
                mesh_to_skeleton_dist = replicate (nv G) PInf,
                mesh_to_skeleton_map = replicate (nv G) None\<rparr>)))) = Some (Inr (rds, rp, st0))"
    by (rule rbind_okE)
  then obtain root_v root_pred1 root_ds1 valid1 where
    r1: "rbind (case root_ds1 of
               None \<Rightarrow> rbind (Some (dijkstra orc G [root_v] PInf)) (\<lambda>(ds, pr, srcs). ok (ds, Some pr))
             | Some ds \<Rightarrow> ok (ds, root_pred1)) (\<lambda>(root_ds, root_pred).
      rbind (case valid1 of
               None \<Rightarrow> Some (np_set (replicate (nv G) True) root_v False)
             | Some v \<Rightarrow> if length v \<noteq> nv G
                         then raise (ValueError ''valid must be length of vertices'') else ok v) (\<lambda>valid0.
      if length root_ds \<noteq> length valid0 then raise (ValueError ''operands could not be broadcast together'')
      else if list_ex (\<lambda>(d, b). d = PInf \<and> b) (zip root_ds valid0)
        then raise (ValueError ''all valid vertices should be reachable from root'')
      else ok (root_ds, root_pred,
               \<lparr>valid = valid0, visited_nodes = [root_v], paths = [], path_lengths = [],
                mesh_to_skeleton_dist = replicate (nv G) PInf,
                mesh_to_skeleton_map = replicate (nv G) None\<rparr>))) = Some (Inr (rds, rp, st0))"
    by (cases x1) (simp only: prod.case)
  from r1 obtain x2 where "(case x2 of (root_ds, root_pred) \<Rightarrow>
      rbind (case valid1 of
               None \<Rightarrow> Some (np_set (replicate (nv G) True) root_v False)
             | Some v \<Rightarrow> if length v \<noteq> nv G
                         then raise (ValueError ''valid must be length of vertices'') else ok v) (\<lambda>valid0.
      if length root_ds \<noteq> length valid0 then raise (ValueError ''operands could not be broadcast together'')
      else if list_ex (\<lambda>(d, b). d = PInf \<and> b) (zip root_ds valid0)
        then raise (ValueError ''all valid vertices should be reachable from root'')
      else ok (root_ds, root_pred,
               \<lparr>valid = valid0, visited_nodes = [root_v], paths = [], path_lengths = [],
                mesh_to_skeleton_dist = replicate (nv G) PInf,
                mesh_to_skeleton_map = replicate (nv G) None\<rparr>))) = Some (Inr (rds, rp, st0))"
    by (rule rbind_okE)
  then obtain root_ds root_pred where
    r2: "rbind (case valid1 of
               None \<Rightarrow> Some (np_set (replicate (nv G) True) root_v False)
             | Some v \<Rightarrow> if length v \<noteq> nv G
                         then raise (ValueError ''valid must be length of vertices'') else ok v) (\<lambda>valid0.
      if length root_ds \<noteq> length valid0 then raise (ValueError ''operands could not be broadcast together'')
      else if list_ex (\<lambda>(d, b). d = PInf \<and> b) (zip root_ds valid0)
        then raise (ValueError ''all valid vertices should be reachable from root'')
      else ok (root_ds, root_pred,
               \<lparr>valid = valid0, visited_nodes = [root_v], paths = [], path_lengths = [],
                mesh_to_skeleton_dist = replicate (nv G) PInf,
                mesh_to_skeleton_map = replicate (nv G) None\<rparr>)) = Some (Inr (rds, rp, st0))"
    by (cases x2) (simp only: prod.case)
  from r2 obtain valid0 where
    v0: "(case valid1 of
               None \<Rightarrow> Some (np_set (replicate (nv G) True) root_v False)
             | Some v \<Rightarrow> if length v \<noteq> nv G
                         then raise (ValueError ''valid must be length of vertices'') else ok v) = Some (Inr valid0)"
    and r3: "(if length root_ds \<noteq> length valid0 then raise (ValueError ''operands could not be broadcast together'')
      else if list_ex (\<lambda>(d, b). d = PInf \<and> b) (zip root_ds valid0)
        then raise (ValueError ''all valid vertices should be reachable from root'')
      else ok (root_ds, root_pred,
               \<lparr>valid = valid0, visited_nodes = [root_v], paths = [], path_lengths = [],
                mesh_to_skeleton_dist = replicate (nv G) PInf,
                mesh_to_skeleton_map = replicate (nv G) None\<rparr>)) = Some (Inr (rds, rp, st0))"
    by (rule rbind_okE)
  have lv: "length valid0 = nv G"
  proof (cases valid1)
    case None
    with v0 have "np_set (replicate (nv G) True) root_v False = Inr valid0" by simp
    then show ?thesis
      by (auto simp: np_set_def split: option.splits)
  next
    case (Some v)
    with v0 show ?thesis
      by (cases "length v \<noteq> nv G") (simp_all add: raise_def ok_def)
  qed
  from r3 have c1: "length root_ds = length valid0"
    by (cases "length root_ds \<noteq> length valid0") (simp_all add: raise_def)
  with r3 have c2: "\<not> list_ex (\<lambda>(d, b). d = PInf \<and> b) (zip root_ds valid0)"
    by (cases "list_ex (\<lambda>(d, b). d = PInf \<and> b) (zip root_ds valid0)") (simp_all add: raise_def)
  from r3 c1 c2 have res: "rds = root_ds" "rp = root_pred"
    "st0 = \<lparr>valid = valid0, visited_nodes = [root_v], paths = [], path_lengths = [],
                mesh_to_skeleton_dist = replicate (nv G) PInf,
                mesh_to_skeleton_map = replicate (nv G) None\<rparr>"
    by (simp_all add: ok_def)
  have fin: "\<forall>v<nv G. valid0 ! v \<longrightarrow> root_ds ! v \<noteq> PInf"
  proof (intro allI impI notI)
    fix v assume v: "v < nv G" "valid0 ! v" "root_ds ! v = PInf"
    with c1 lv have "(root_ds ! v, valid0 ! v) \<in> set (zip root_ds valid0)"
      by (auto simp: set_zip intro!: exI [of _ v])
    with v(2,3) c2 show False
      by (auto simp: list_ex_iff)
  qed
  from lv c1 fin show ?thesis by (simp add: res)
qed

section \<open>What one iteration does to the state\<close>

lemma next_state_sel:
  "valid (next_state rm st path d dm srcs) = invalidate (valid st) dm"
  "visited_nodes (next_state rm st path d dm srcs) = visited_nodes st @ butlast path"
  "paths (next_state rm st path d dm srcs) = paths st @ [path]"
  "path_lengths (next_state rm st path d dm srcs) = path_lengths st @ [d]"
  by (simp_all add: next_state_def)

lemma next_state_map:
  "mesh_to_skeleton_dist (next_state True st path d dm srcs) = update_dist dm (mesh_to_skeleton_dist st)"
  "mesh_to_skeleton_map (next_state True st path d dm srcs)
     = update_map dm srcs (mesh_to_skeleton_dist st) (mesh_to_skeleton_map st)"
  by (simp_all add: next_state_def)

lemma path_from_nonempty: "path_from G ds t b path \<Longrightarrow> path \<noteq> []"
  by (simp add: path_from_def)

lemma path_from_hd: "path_from G ds t b path \<Longrightarrow> hd path = int t"
  by (simp add: path_from_def)

lemma path_from_last: "path_from G ds t b path \<Longrightarrow> last path = int b"
  by (simp add: path_from_def)

lemma path_from_range: "path_from G ds t b path \<Longrightarrow> x \<in> set path \<Longrightarrow> 0 \<le> x \<and> x < int (nv G)"
  by (simp add: path_from_def)

lemma path_from_nat: "path_from G ds t b path \<Longrightarrow> x \<in> set path \<Longrightarrow> nat x < nv G"
  using path_from_range [of G ds t b path x] by (simp add: nat_less_iff)

lemma path_from_steps:
  "path_from G ds t b path \<Longrightarrow>
     successively (\<lambda>x y. \<exists>w a. edge G (nat x) (nat y) w \<and> ds ! nat x = Fin a \<and> ds ! nat y = Fin (a + w)) path"
  by (simp add: path_from_def)

lemma path_from_edges:
  assumes "path_from G ds t b path"
  shows "successively (\<lambda>x y. \<exists>w. edge G (nat x) (nat y) w) path"
proof (rule successively_mono [OF path_from_steps [OF assms]])
  fix x y
  assume "\<exists>w a. edge G (nat x) (nat y) w \<and> ds ! nat x = Fin a \<and> ds ! nat y = Fin (a + w)"
  then show "\<exists>w. edge G (nat x) (nat y) w" by blast
qed

lemma path_from_nat_range: "path_from G ds t b path \<Longrightarrow> set (map nat path) \<subseteq> {..<nv G}"
proof
  fix s assume p: "path_from G ds t b path" and "s \<in> set (map nat path)"
  then obtain x where x: "x \<in> set path" "s = nat x" by auto
  from path_from_nat [OF p x(1)] x(2) show "s \<in> {..<nv G}" by simp
qed

text \<open>The sweep from a path leaves every vertex of the path at distance 0.\<close>

lemma sweep_path_zero:
  assumes ex: "exact_result G (map nat path) L (dm, pm, srcs)" and W: "wf_graph G"
    and p: "path_from G ds t b path" and L: "Fin 0 \<le> L" and x: "x \<in> set path"
  shows "dm ! nat x = Fin 0"
proof -
  from x have "nat x \<in> set (map nat path)" by simp
  moreover from path_from_nat [OF p x] have "nat x < nv G" .
  ultimately show ?thesis
    using ex W L by (intro exact_source_zero [of G "map nat path" L dm pm srcs])
qed

text \<open>The state stays well formed, the mask only loses vertices, and the vertices of the
  new path are among those it loses.\<close>

lemma step_wf_state:
  assumes E: "exact_search G orc" and W: "wf_graph G" and L: "length rds = nv G"
    and S: "wf_state G st"
    and it: "teasar_iteration orc G rds rp inv_d rm st = Some (Inr st')"
  shows "wf_state G st'"
proof -
  from iteration_char [OF E W L S it] obtain t lmt ds pt sot b d path dm pm srcs where
    p: "path_from G ds t b path"
    and ex: "exact_result G (map nat path) inv_d (dm, pm, srcs)"
    and st': "st' = next_state rm st path (Fin d) dm srcs"
    by blast
  from exact_lengths [OF ex] have ldm: "length dm = nv G" by simp
  from S have lv: "length (valid st) = nv G" and ne: "visited_nodes st \<noteq> []"
    and rng: "\<forall>x\<in>set (visited_nodes st). 0 \<le> x \<and> x < int (nv G)"
    by (simp_all add: wf_state_def)
  have "length (valid st') = nv G"
    unfolding st' next_state_sel using ldm lv by (simp add: length_invalidate)
  moreover have "visited_nodes st' \<noteq> []"
    unfolding st' next_state_sel using ne by simp
  moreover have "\<forall>x\<in>set (visited_nodes st'). 0 \<le> x \<and> x < int (nv G)"
  proof
    fix x assume "x \<in> set (visited_nodes st')"
    then have "x \<in> set (visited_nodes st) \<or> x \<in> set (butlast path)"
      unfolding st' next_state_sel by simp
    then show "0 \<le> x \<and> x < int (nv G)"
    proof
      assume "x \<in> set (visited_nodes st)"
      with rng show ?thesis by blast
    next
      assume "x \<in> set (butlast path)"
      then have "x \<in> set path" by (rule in_set_butlastD)
      with p show ?thesis by (rule path_from_range)
    qed
  qed
  ultimately show ?thesis by (simp add: wf_state_def)
qed

lemma step_valid:
  assumes E: "exact_search G orc" and W: "wf_graph G" and L: "length rds = nv G"
    and S: "wf_state G st"
    and it: "teasar_iteration orc G rds rp inv_d rm st = Some (Inr st')"
  shows "\<exists>t path. select_target rds (valid st) = Inr t \<and> t < nv G \<and> \<not> valid st' ! t \<and>
           paths st' = paths st @ [path] \<and> (\<forall>x\<in>set path. \<not> valid st' ! nat x) \<and>
           (\<forall>v<nv G. valid st' ! v \<longrightarrow> valid st ! v) \<and>
           (\<forall>v<nv G. valid st ! v \<and> \<not> valid st' ! v \<longrightarrow>
              (\<exists>x\<in>set path. \<exists>c. walk G (nat x) v c \<and> Fin c \<le> inv_d))"
proof -
  from iteration_char [OF E W L S it] obtain t lmt ds pt sot b d path dm pm srcs where
    tg: "select_target rds (valid st) = Inr t" "t < nv G"
    and p: "path_from G ds t b path"
    and inv0: "Fin 0 \<le> inv_d"
    and ex: "exact_result G (map nat path) inv_d (dm, pm, srcs)"
    and st': "st' = next_state rm st path (Fin d) dm srcs"
    by blast
  from exact_lengths [OF ex] have ldm: "length dm = nv G" by simp
  from S have lv: "length (valid st) = nv G" by (simp add: wf_state_def)
  have nth: "\<And>v. v < nv G \<Longrightarrow> valid st' ! v \<longleftrightarrow> valid st ! v \<and> dm ! v = PInf"
    unfolding st' next_state_sel using ldm lv by (simp add: invalidate_nth)
  have onpath: "\<forall>x\<in>set path. \<not> valid st' ! nat x"
  proof
    fix x assume x: "x \<in> set path"
    from sweep_path_zero [OF ex W p inv0 x] have "dm ! nat x = Fin 0" .
    moreover from path_from_nat [OF p x] have "nat x < nv G" .
    ultimately show "\<not> valid st' ! nat x" by (simp add: nth)
  qed
  from path_from_nonempty [OF p] have "hd path \<in> set path" by simp
  with path_from_hd [OF p] have "int t \<in> set path" by simp
  with onpath have nt: "\<not> valid st' ! t" by force
  have mono: "\<forall>v<nv G. valid st' ! v \<longrightarrow> valid st ! v"
    by (simp add: nth)
  have cov: "\<forall>v<nv G. valid st ! v \<and> \<not> valid st' ! v \<longrightarrow>
              (\<exists>x\<in>set path. \<exists>c. walk G (nat x) v c \<and> Fin c \<le> inv_d)"
  proof (intro allI impI)
    fix v assume v: "v < nv G" and "valid st ! v \<and> \<not> valid st' ! v"
    with nth [OF v] have "dm ! v \<noteq> PInf" by blast
    then obtain c where c: "dm ! v = Fin c" by (cases "dm ! v") auto
    from exact_reached_walk [OF ex v c] obtain s where
      "Fin c \<le> inv_d" "s \<in> set (map nat path)" "walk G s v c" by blast
    then show "\<exists>x\<in>set path. \<exists>c. walk G (nat x) v c \<and> Fin c \<le> inv_d" by auto
  qed
  have ps: "paths st' = paths st @ [path]"
    unfolding st' next_state_sel ..
  from tg nt ps onpath mono cov show ?thesis by blast
qed


text \<open>The new path and its length.\<close>

lemma step_path:
  assumes E: "exact_search G orc" and W: "wf_graph G" and L: "length rds = nv G"
    and S: "wf_state G st"
    and it: "teasar_iteration orc G rds rp inv_d rm st = Some (Inr st')"
  shows "\<exists>path l. paths st' = paths st @ [path] \<and> path_lengths st' = path_lengths st @ [l] \<and>
           good_path G path l"
proof -
  from iteration_char [OF E W L S it] obtain t lmt ds pt sot b d path dm pm srcs where
    t: "t < nv G"
    and ex: "exact_result G [t] lmt (ds, pt, sot)"
    and b: "b < nv G" "ds ! b = Fin d"
    and p: "path_from G ds t b path"
    and st': "st' = next_state rm st path (Fin d) dm srcs"
    by blast
  from exact_dist_iff [OF ex b(1), of d] b(2) have "sp_dist G {t} b d" by simp
  with path_from_hd [OF p] path_from_last [OF p]
  have "sp_dist G {nat (hd path)} (nat (last path)) d" by simp
  moreover have "\<forall>x\<in>set path. 0 \<le> x \<and> x < int (nv G)"
    using path_from_range [OF p] by blast
  ultimately have "good_path G path (Fin d)"
    unfolding good_path_def using path_from_nonempty [OF p] path_from_edges [OF p] by blast
  moreover have "paths st' = paths st @ [path]" "path_lengths st' = path_lengths st @ [Fin d]"
    unfolding st' next_state_sel by simp_all
  ultimately show ?thesis by blast
qed

section \<open>Invariants over the states of a run\<close>

lemma reachable_wf:
  assumes E: "exact_search G orc" and W: "wf_graph G" and L: "length rds = nv G"
    and S0: "wf_state G st0"
  shows "reachable orc G rds rp inv_d rm st0 st \<Longrightarrow> wf_state G st"
proof (induction rule: reachable.induct)
  case reach_init
  show ?case by (rule S0)
next
  case (reach_step st st')
  from E W L reach_step.IH reach_step.hyps(3) show ?case by (rule step_wf_state)
qed


lemma reachable_covered:
  assumes E: "exact_search G orc" and W: "wf_graph G" and L: "length rds = nv G"
    and S0: "wf_state G st0"
  shows "reachable orc G rds rp inv_d rm st0 st \<Longrightarrow>
     \<forall>v<nv G. valid st0 ! v \<and> \<not> valid st ! v \<longrightarrow> covered G (paths st) inv_d v"
proof (induction rule: reachable.induct)
  case reach_init
  show ?case by simp
next
  case (reach_step st st')
  from reachable_wf [OF E W L S0 reach_step.hyps(1)] have S: "wf_state G st" .
  from step_valid [OF E W L S reach_step.hyps(3)] obtain path where
    ps: "paths st' = paths st @ [path]"
    and cov: "\<forall>v<nv G. valid st ! v \<and> \<not> valid st' ! v \<longrightarrow>
              (\<exists>x\<in>set path. \<exists>c. walk G (nat x) v c \<and> Fin c \<le> inv_d)"
    by blast
  show ?case
  proof (intro allI impI)
    fix v assume v: "v < nv G" and h: "valid st0 ! v \<and> \<not> valid st' ! v"
    show "covered G (paths st') inv_d v"
    proof (cases "valid st ! v")
      case True
      with cov v h have "\<exists>x\<in>set path. \<exists>c. walk G (nat x) v c \<and> Fin c \<le> inv_d" by blast
      then show ?thesis unfolding covered_def ps by auto
    next
      case False
      with reach_step.IH v h have "covered G (paths st) inv_d v" by blast
      then show ?thesis unfolding covered_def ps by auto
    qed
  qed
qed

lemma reachable_paths:
  assumes E: "exact_search G orc" and W: "wf_graph G" and L: "length rds = nv G"
    and S0: "wf_state G st0" and P0: "paths st0 = []" "path_lengths st0 = []"
  shows "reachable orc G rds rp inv_d rm st0 st \<Longrightarrow> list_all2 (good_path G) (paths st) (path_lengths st)"
proof (induction rule: reachable.induct)
  case reach_init
  show ?case by (simp add: P0)
next
  case (reach_step st st')
  from reachable_wf [OF E W L S0 reach_step.hyps(1)] have S: "wf_state G st" .
  from step_path [OF E W L S reach_step.hyps(3)] obtain path l where
    "paths st' = paths st @ [path]" "path_lengths st' = path_lengths st @ [l]" "good_path G path l"
    by blast
  with reach_step.IH show ?case
    by (simp add: list_all2_appendI)
qed

text \<open>What a call that returns has gone through.\<close>

lemma component_okD:
  assumes "graph_teasar_component orc frf G root_opt valid_opt rds_opt rp_opt inv_d rm = Some (Inr (ps, ls, m))"
  shows "\<exists>rds rp st0 fin.
      teasar_prelude orc frf G root_opt valid_opt rds_opt rp_opt = Some (Inr (rds, rp, st0)) \<and>
      teasar_loop orc G rds rp inv_d rm st0 = Some (Inr fin) \<and>
      ps = paths fin \<and> ls = path_lengths fin \<and>
      m = (if rm then Some (mesh_to_skeleton_map fin) else None)"
proof -
  from assms [unfolded graph_teasar_component_def]
  obtain x where pre: "teasar_prelude orc frf G root_opt valid_opt rds_opt rp_opt = Some (Inr x)"
    and r1: "(case x of (root_ds, root_pred, st0) \<Rightarrow>
       rbind (teasar_loop orc G root_ds root_pred inv_d rm st0) (\<lambda>st.
         ok (paths st, path_lengths st, if rm then Some (mesh_to_skeleton_map st) else None)))
       = Some (Inr (ps, ls, m))"
    by (rule rbind_okE)
  obtain rds rp st0 where x: "x = (rds, rp, st0)" by (cases x)
  from r1 [unfolded x prod.case]
  obtain fin where lp: "teasar_loop orc G rds rp inv_d rm st0 = Some (Inr fin)"
    and r2: "ok (paths fin, path_lengths fin, if rm then Some (mesh_to_skeleton_map fin) else None)
       = Some (Inr (ps, ls, m))"
    by (rule rbind_okE)
  from r2 have "ps = paths fin" "ls = path_lengths fin"
    "m = (if rm then Some (mesh_to_skeleton_map fin) else None)"
    by (simp_all add: ok_def)
  with pre lp x show ?thesis by blast
qed

lemma prelude_wf_state:
  assumes pre: "teasar_prelude orc frf G root_opt valid_opt rds_opt rp_opt = Some (Inr (rds, rp, st0))"
    and r: "visited_nodes st0 = [int r]" "r < nv G"
  shows "wf_state G st0"
  using prelude_char [OF pre] r by (simp add: wf_state_def)

section \<open>The loop on the arrays of an exact search from the root\<close>





section \<open>The visited vertices on a graph with positive weights\<close>










section \<open>The map from vertices to path vertices\<close>

lemma update_dist_nth:
  "length dm = length msd \<Longrightarrow> v < length msd \<Longrightarrow>
     update_dist dm msd ! v = (if new_sources_closer (dm ! v) (msd ! v) then dm ! v else msd ! v)"
  by (simp add: update_dist_def)

lemma update_map_nth:
  "length dm = length msd \<Longrightarrow> length sources = length msd \<Longrightarrow> length msm = length msd \<Longrightarrow>
     v < length msd \<Longrightarrow>
     update_map dm sources msd msm ! v
       = (if new_sources_closer (dm ! v) (msd ! v) then Some (sources ! v) else msm ! v)"
  by (simp add: update_map_def)

lemma length_update_dist: "length dm = length msd \<Longrightarrow> length (update_dist dm msd) = length msd"
  by (simp add: update_dist_def)

lemma length_update_map:
  "length dm = length msd \<Longrightarrow> length sources = length msd \<Longrightarrow> length msm = length msd \<Longrightarrow>
     length (update_map dm sources msd msm) = length msd"
  by (simp add: update_map_def)

lemma path_vertices_snoc: "path_vertices (ps @ [p]) = path_vertices ps \<union> set (map nat p)"
  by (auto simp: path_vertices_def)

text \<open>
  Keeping the smaller of two exact distances, one to the set \<open>A\<close> and one to the set \<open>B\<close>,
  gives the exact distance to \<open>A \<union> B\<close>.
\<close>

lemma merge_exact_fwd:
  assumes W: "wf_graph G"
    and a: "\<And>d. old = Fin d \<longleftrightarrow> sp_dist G A v d \<and> Fin d \<le> L"
    and b: "\<And>d. dmv = Fin d \<longleftrightarrow> sp_dist G B v d \<and> Fin d \<le> L"
    and n: "(if new_sources_closer dmv old then dmv else old) = Fin d"
  shows "sp_dist G (A \<union> B) v d \<and> Fin d \<le> L"
proof (cases "new_sources_closer dmv old")
  case True
  with n have dm: "dmv = Fin d" by simp
  with b have spb: "sp_dist G B v d" and dl: "Fin d \<le> L" by blast+
  from True dm have lt: "Fin d < old" by (simp add: new_sources_closer_def)
  from sp_dist_walk [OF spb] obtain s where s: "s \<in> B" "walk G s v d" by blast
  have "sp_dist G (A \<union> B) v d"
  proof (rule sp_distI [of s])
    show "s \<in> A \<union> B" using s(1) by simp
    show "walk G s v d" by (rule s(2))
  next
    fix s' c assume s': "s' \<in> A \<union> B" and w: "walk G s' v c"
    show "d \<le> c"
    proof (cases "s' \<in> B")
      case True
      from sp_dist_le [OF spb True w] show ?thesis .
    next
      case False
      with s' have sa: "s' \<in> A" by simp
      show ?thesis
      proof (rule ccontr)
        assume "\<not> d \<le> c"
        then have cd: "c < d" by simp
        from sp_dist_exists [OF W w sa] obtain e where e: "e \<le> c" "sp_dist G A v e" by blast
        from e(1) cd have "Fin e \<le> Fin d" by simp
        from this dl have "Fin e \<le> L" by (rule order_trans)
        with e(2) a [of e] have "old = Fin e" by simp
        with lt e(1) cd show False by simp
      qed
    qed
  qed
  with dl show ?thesis by simp
next
  case False
  with n have od: "old = Fin d" by simp
  with a have spa: "sp_dist G A v d" and dl: "Fin d \<le> L" by blast+
  from sp_dist_walk [OF spa] obtain s where s: "s \<in> A" "walk G s v d" by blast
  have "sp_dist G (A \<union> B) v d"
  proof (rule sp_distI [of s])
    show "s \<in> A \<union> B" using s(1) by simp
    show "walk G s v d" by (rule s(2))
  next
    fix s' c assume s': "s' \<in> A \<union> B" and w: "walk G s' v c"
    show "d \<le> c"
    proof (cases "s' \<in> A")
      case True
      from sp_dist_le [OF spa True w] show ?thesis .
    next
      case nA: False
      with s' have sb: "s' \<in> B" by simp
      show ?thesis
      proof (rule ccontr)
        assume "\<not> d \<le> c"
        then have cd: "c < d" by simp
        from sp_dist_exists [OF W w sb] obtain e where e: "e \<le> c" "sp_dist G B v e" by blast
        from e(1) cd have "Fin e \<le> Fin d" by simp
        from this dl have "Fin e \<le> L" by (rule order_trans)
        with e(2) b [of e] have "dmv = Fin e" by simp
        with od e(1) cd have "new_sources_closer dmv old" by (simp add: new_sources_closer_def)
        with False show False by simp
      qed
    qed
  qed
  with dl show ?thesis by simp
qed

lemma merge_exact:
  assumes W: "wf_graph G"
    and a: "\<And>d. old = Fin d \<longleftrightarrow> sp_dist G A v d \<and> Fin d \<le> L"
    and b: "\<And>d. dmv = Fin d \<longleftrightarrow> sp_dist G B v d \<and> Fin d \<le> L"
  shows "(if new_sources_closer dmv old then dmv else old) = Fin d \<longleftrightarrow> sp_dist G (A \<union> B) v d \<and> Fin d \<le> L"
proof
  assume "(if new_sources_closer dmv old then dmv else old) = Fin d"
  with W a b show "sp_dist G (A \<union> B) v d \<and> Fin d \<le> L" by (rule merge_exact_fwd)
next
  let ?new = "if new_sources_closer dmv old then dmv else old"
  assume h: "sp_dist G (A \<union> B) v d \<and> Fin d \<le> L"
  then have sp: "sp_dist G (A \<union> B) v d" and dl: "Fin d \<le> L" by blast+
  from sp_dist_walk [OF sp] obtain s where s: "s \<in> A \<union> B" "walk G s v d" by blast
  have "?new \<noteq> PInf"
  proof (cases "s \<in> A")
    case True
    from sp_dist_exists [OF W s(2) True] obtain e where e: "e \<le> d" "sp_dist G A v e" by blast
    from e(1) have "Fin e \<le> Fin d" by simp
    from this dl have "Fin e \<le> L" by (rule order_trans)
    with e(2) a [of e] have "old = Fin e" by simp
    then show ?thesis by (simp add: new_sources_closer_def)
  next
    case False
    with s(1) have sb: "s \<in> B" by simp
    from sp_dist_exists [OF W s(2) sb] obtain e where e: "e \<le> d" "sp_dist G B v e" by blast
    from e(1) have "Fin e \<le> Fin d" by simp
    from this dl have "Fin e \<le> L" by (rule order_trans)
    with e(2) b [of e] have "dmv = Fin e" by simp
    then show ?thesis by (cases old) (simp_all add: new_sources_closer_def)
  qed
  then obtain e where e: "?new = Fin e" by (cases ?new) simp_all
  from merge_exact_fwd [OF W a b e] have "sp_dist G (A \<union> B) v e" by blast
  from sp_dist_unique [OF this sp] e show "?new = Fin d" by simp
qed

text \<open>A sweep keeps the map arrays exact for the vertices of all the paths recorded so
  far, and changes an entry only to a strictly smaller distance.\<close>

lemma step_map:
  assumes E: "exact_search G orc" and W: "wf_graph G" and L: "length rds = nv G"
    and S: "wf_state G st" and M: "map_exact G inv_d st"
    and it: "teasar_iteration orc G rds rp inv_d True st = Some (Inr st')"
  shows "map_exact G inv_d st' \<and>
         (\<forall>v<nv G. mesh_to_skeleton_dist st' ! v \<le> mesh_to_skeleton_dist st ! v \<and>
            (mesh_to_skeleton_dist st' ! v = mesh_to_skeleton_dist st ! v \<longrightarrow>
               mesh_to_skeleton_map st' ! v = mesh_to_skeleton_map st ! v))"
proof -
  from iteration_char [OF E W L S it] obtain t lmt ds pt sot b d path dm pm srcs where
    ex: "exact_result G (map nat path) inv_d (dm, pm, srcs)"
    and st': "st' = next_state True st path (Fin d) dm srcs"
    by blast
  let ?old = "mesh_to_skeleton_dist st" and ?om = "mesh_to_skeleton_map st"
  let ?A = "path_vertices (paths st)" and ?B = "set (map nat path)"
  from exact_lengths [OF ex] have ldm: "length dm = nv G" "length srcs = nv G" by simp_all
  from M have lo: "length ?old = nv G" "length ?om = nv G"
    and a: "\<forall>v<nv G. \<forall>d. ?old ! v = Fin d \<longleftrightarrow> sp_dist G ?A v d \<and> Fin d \<le> inv_d"
    and am: "\<forall>v<nv G. \<forall>d. ?old ! v = Fin d \<longrightarrow> (\<exists>s\<in>?A. ?om ! v = Some (int s) \<and> walk G s v d)"
    and an: "\<forall>v<nv G. ?old ! v = PInf \<longrightarrow> ?om ! v = None"
    by (simp_all add: map_exact_def)
  have nd: "\<And>v. v < nv G \<Longrightarrow> mesh_to_skeleton_dist st' ! v
      = (if new_sources_closer (dm ! v) (?old ! v) then dm ! v else ?old ! v)"
    unfolding st' next_state_map using ldm lo by (simp add: update_dist_nth)
  have nm: "\<And>v. v < nv G \<Longrightarrow> mesh_to_skeleton_map st' ! v
      = (if new_sources_closer (dm ! v) (?old ! v) then Some (srcs ! v) else ?om ! v)"
    unfolding st' next_state_map using ldm lo by (simp add: update_map_nth)
  have pv: "path_vertices (paths st') = ?A \<union> ?B"
    unfolding st' next_state_sel by (rule path_vertices_snoc)
  have l': "length (mesh_to_skeleton_dist st') = nv G" "length (mesh_to_skeleton_map st') = nv G"
    unfolding st' next_state_map using ldm lo
    by (simp_all add: length_update_dist length_update_map)
  have c1: "\<forall>v<nv G. \<forall>d. mesh_to_skeleton_dist st' ! v = Fin d \<longleftrightarrow>
      sp_dist G (path_vertices (paths st')) v d \<and> Fin d \<le> inv_d"
  proof (intro allI impI)
    fix v d assume v: "v < nv G"
    have "(if new_sources_closer (dm ! v) (?old ! v) then dm ! v else ?old ! v) = Fin d \<longleftrightarrow>
        sp_dist G (?A \<union> ?B) v d \<and> Fin d \<le> inv_d"
    proof (rule merge_exact [OF W])
      fix e show "?old ! v = Fin e \<longleftrightarrow> sp_dist G ?A v e \<and> Fin e \<le> inv_d"
        using a v by blast
    next
      fix e show "dm ! v = Fin e \<longleftrightarrow> sp_dist G ?B v e \<and> Fin e \<le> inv_d"
        by (rule exact_dist_iff [OF ex v])
    qed
    then show "mesh_to_skeleton_dist st' ! v = Fin d \<longleftrightarrow>
      sp_dist G (path_vertices (paths st')) v d \<and> Fin d \<le> inv_d"
      unfolding pv nd [OF v] .
  qed
  have c2: "\<forall>v<nv G. \<forall>d. mesh_to_skeleton_dist st' ! v = Fin d \<longrightarrow>
      (\<exists>s\<in>path_vertices (paths st'). mesh_to_skeleton_map st' ! v = Some (int s) \<and> walk G s v d)"
  proof (intro allI impI)
    fix v d assume v: "v < nv G" and d: "mesh_to_skeleton_dist st' ! v = Fin d"
    show "\<exists>s\<in>path_vertices (paths st'). mesh_to_skeleton_map st' ! v = Some (int s) \<and> walk G s v d"
    proof (cases "new_sources_closer (dm ! v) (?old ! v)")
      case True
      with d nd [OF v] have "dm ! v = Fin d" by simp
      from exact_source [OF ex v this] obtain s where "s \<in> ?B" "srcs ! v = int s" "walk G s v d"
        by blast
      with True nm [OF v] show ?thesis unfolding pv by auto
    next
      case False
      with d nd [OF v] have "?old ! v = Fin d" by simp
      with am v obtain s where "s \<in> ?A" "?om ! v = Some (int s)" "walk G s v d" by blast
      with False nm [OF v] show ?thesis unfolding pv by auto
    qed
  qed
  have c3: "\<forall>v<nv G. mesh_to_skeleton_dist st' ! v = PInf \<longrightarrow> mesh_to_skeleton_map st' ! v = None"
  proof (intro allI impI)
    fix v assume v: "v < nv G" and d: "mesh_to_skeleton_dist st' ! v = PInf"
    from d nd [OF v] have nc: "\<not> new_sources_closer (dm ! v) (?old ! v)"
      by (auto simp: new_sources_closer_def split: if_splits)
    with d nd [OF v] have "?old ! v = PInf" by simp
    with an v have "?om ! v = None" by blast
    with nc nm [OF v] show "mesh_to_skeleton_map st' ! v = None" by simp
  qed
  have c4: "\<forall>v<nv G. mesh_to_skeleton_dist st' ! v \<le> mesh_to_skeleton_dist st ! v \<and>
            (mesh_to_skeleton_dist st' ! v = mesh_to_skeleton_dist st ! v \<longrightarrow>
               mesh_to_skeleton_map st' ! v = mesh_to_skeleton_map st ! v)"
  proof (intro allI impI)
    fix v assume v: "v < nv G"
    show "mesh_to_skeleton_dist st' ! v \<le> ?old ! v \<and>
            (mesh_to_skeleton_dist st' ! v = ?old ! v \<longrightarrow> mesh_to_skeleton_map st' ! v = ?om ! v)"
      unfolding nd [OF v] nm [OF v] by (auto simp: new_sources_closer_def)
  qed
  from l' c1 c2 c3 have "map_exact G inv_d st'" unfolding map_exact_def by blast
  with c4 show ?thesis by blast
qed

lemma sp_dist_empty: "\<not> sp_dist G {} v d"
  by (simp add: sp_dist_def)

lemma reachable_map:
  assumes E: "exact_search G orc" and W: "wf_graph G" and L: "length rds = nv G"
    and S0: "wf_state G st0" and P0: "paths st0 = []"
    and D0: "mesh_to_skeleton_dist st0 = replicate (nv G) PInf"
      "mesh_to_skeleton_map st0 = replicate (nv G) None"
  shows "reachable orc G rds rp inv_d True st0 st \<Longrightarrow> map_exact G inv_d st"
proof (induction rule: reachable.induct)
  case reach_init
  show ?case
    by (simp add: map_exact_def P0 D0 path_vertices_def sp_dist_empty)
next
  case (reach_step st st')
  from reachable_wf [OF E W L S0 reach_step.hyps(1)] have S: "wf_state G st" .
  from step_map [OF E W L S reach_step.IH reach_step.hyps(3)] show ?case by blast
qed

section \<open>The run on the example graph\<close>

lemma tee_wf: "wf_graph tee"
  by (simp add: tee_def wf_graph_def)

lemma tee_positive: "positive_weights tee"
  by (simp add: tee_def positive_weights_def)

lemma tee_exact: "exact_search tee bf_search"
  using tee_wf tee_positive by (rule bf_exact)

lemma tee_prelude:
  "teasar_prelude bf_search no_root tee (Some 0) None None None = Some (Inr (tee_rds, Some tee_rp, tee_st0))"
  by code_simp

lemma tee_root: "visited_nodes tee_st0 = [int 0]" "0 < nv tee"
  by (simp_all add: tee_st0_def tee_def)

lemma tee_run:
  "graph_teasar_component bf_search no_root tee (Some 0) None None None (Fin 1) True
     = Some (Inr ([[1, 0], [3, 2, 0]], [Fin 10, Fin 6], Some [Some 0, Some 1, Some 2, Some 3]))"
  by code_simp

lemma tee_step1:
  "teasar_iteration bf_search tee tee_rds (Some tee_rp) (Fin 1) True tee_st0 = Some (Inr tee_st1)"
  by code_simp

lemma tee_step2:
  "teasar_iteration bf_search tee tee_rds (Some tee_rp) (Fin 1) True tee_st1 = Some (Inr tee_st2)"
  by code_simp

lemma tee_reach0: "reachable bf_search tee tee_rds (Some tee_rp) (Fin 1) True tee_st0 tee_st0"
  by (rule reach_init)

lemma tee_reach1: "reachable bf_search tee tee_rds (Some tee_rp) (Fin 1) True tee_st0 tee_st1"
proof (rule reach_step [OF reach_init _ tee_step1])
  show "list_ex id (valid tee_st0)" by (simp add: tee_st0_def)
qed

lemma tee_reach2: "reachable bf_search tee tee_rds (Some tee_rp) (Fin 1) True tee_st0 tee_st2"
proof (rule reach_step [OF tee_reach1 _ tee_step2])
  show "list_ex id (valid tee_st1)" by (simp add: tee_st1_def)
qed



section \<open>\<open>create_spatial_csgraph\<close>: shapes and self-loops\<close>

lemma coo_add_positions:
  "(r, c, w) \<in> set (coo_add e es) \<Longrightarrow> (r = fst e \<and> c = fst (snd e)) \<or> (\<exists>w'. (r, c, w') \<in> set es)"
  by (induction e es rule: coo_add.induct) (auto split: if_splits)

lemma fold_coo_add_positions:
  "(r, c, w) \<in> set (fold coo_add xs acc) \<Longrightarrow>
     (\<exists>w'. (r, c, w') \<in> set xs) \<or> (\<exists>w'. (r, c, w') \<in> set acc)"
proof (induction xs arbitrary: acc)
  case Nil
  then show ?case by auto
next
  case (Cons x xs)
  from Cons.IH [OF Cons.prems [simplified]] show ?case
  proof
    assume "\<exists>w'. (r, c, w') \<in> set xs"
    then show ?thesis by auto
  next
    assume "\<exists>w'. (r, c, w') \<in> set (coo_add x acc)"
    then obtain w' where "(r, c, w') \<in> set (coo_add x acc)" ..
    from coo_add_positions [OF this] show ?thesis
      by (cases x) auto
  qed
qed

lemma csr_matrix_positions:
  assumes "csr_matrix N coo = Inr G" and "(u, v, w) \<in> set (entries G)"
  shows "\<exists>r c w'. (r, c, w') \<in> set coo \<and> 0 \<le> r \<and> 0 \<le> c \<and> u = nat r \<and> v = nat c"
proof -
  from assms(1) have G: "entries G = fold coo_add (map (\<lambda>(r, c, w). (nat r, nat c, w)) coo) []"
    and nn: "\<not> list_ex (\<lambda>(r, c, w). r < 0 \<or> c < 0) coo"
    by (auto simp: csr_matrix_def split: if_splits)
  from assms(2) G have "(u, v, w) \<in> set (fold coo_add (map (\<lambda>(r, c, w). (nat r, nat c, w)) coo) [])"
    by simp
  from fold_coo_add_positions [OF this]
  have "\<exists>w'. (u, v, w') \<in> set (map (\<lambda>(r, c, w). (nat r, nat c, w)) coo)"
    by simp
  then obtain w' where "(u, v, w') \<in> set (map (\<lambda>(r, c, w). (nat r, nat c, w)) coo)"
    by blast
  then have "(u, v, w') \<in> (\<lambda>(r, c, w). (nat r, nat c, w)) ` set coo"
    by (simp only: set_map)
  then obtain x where x: "x \<in> set coo" "(u, v, w') = (\<lambda>(r, c, w). (nat r, nat c, w)) x"
    by (rule imageE)
  obtain r c w0 where xe: "x = (r, c, w0)"
    by (cases x) auto
  from x xe have "(r, c, w') \<in> set coo" "u = nat r" "v = nat c"
    by auto
  moreover from this nn have "0 \<le> r \<and> 0 \<le> c"
    by (fastforce simp: list_ex_iff)
  ultimately show ?thesis by blast
qed

lemma fwd_no_self_loop:
  assumes "(r, c, w) \<in> set (map2 (\<lambda>e w. (e ! 0, e ! 1, w)) (drop_self_loops es) ws)"
  shows "r \<noteq> c"
proof -
  from assms obtain e w' where "(e, w') \<in> set (zip (drop_self_loops es) ws)" and rc: "r = e ! 0" "c = e ! 1"
    by auto
  then have "e \<in> set (drop_self_loops es)"
    by (auto dest: set_zip_leftD)
  then have "e ! 0 \<noteq> e ! 1"
    by (simp add: drop_self_loops_def)
  with rc show ?thesis by simp
qed

lemma bwd_no_self_loop:
  assumes "(r, c, w) \<in> set (map2 (\<lambda>e w. (e ! 1, e ! 0, w)) (drop_self_loops es) ws)"
  shows "r \<noteq> c"
proof -
  from assms obtain e w' where "(e, w') \<in> set (zip (drop_self_loops es) ws)" and rc: "r = e ! 1" "c = e ! 0"
    by auto
  then have "e \<in> set (drop_self_loops es)"
    by (auto dest: set_zip_leftD)
  then have "e ! 0 \<noteq> e ! 1"
    by (simp add: drop_self_loops_def)
  with rc show ?thesis by simp
qed

lemma create_no_diagonal:
  assumes "create_spatial_csgraph linalg_norm vertices edges ew dir = Inr G"
    and "(u, v, w) \<in> set (entries G)"
  shows "u \<noteq> v"
proof
  assume uv: "u = v"
  define es where "es = drop_self_loops (rows edges)"
  define coo where "coo = (\<lambda>weights :: int list. if dir then map2 (\<lambda>e w. (e ! 0, e ! 1, w)) es weights
             else map2 (\<lambda>e w. (e ! 0, e ! 1, w)) es weights
                @ map2 (\<lambda>e w. (e ! 1, e ! 0, w)) es weights)"
  define A where "A \<longleftrightarrow> ndim vertices \<noteq> 2 \<or> shape vertices ! 1 < 1"
  define B where "B \<longleftrightarrow> ndim edges \<noteq> 2 \<or> shape edges ! 1 \<noteq> 2"
  have unf: "create_spatial_csgraph linalg_norm vertices edges ew dir =
      (if A then Inl (ValueError ''vertices must be a NxK array with K > 0'')
       else if B then Inl (ValueError ''edges must be a Mx2 array'')
       else (case edge_weights linalg_norm (rows vertices) es ew of Inl e \<Rightarrow> Inl e
             | Inr weights \<Rightarrow> csr_matrix (shape vertices ! 0) (coo weights)))"
    by (simp only: create_spatial_csgraph_def Let_def es_def coo_def A_def B_def)
  from assms(1) have "\<not> A" "\<not> B"
    unfolding unf by (auto split: if_splits)
  with assms(1) have c: "(case edge_weights linalg_norm (rows vertices) es ew of Inl e \<Rightarrow> Inl e
             | Inr weights \<Rightarrow> csr_matrix (shape vertices ! 0) (coo weights)) = Inr G"
    unfolding unf by simp
  then obtain weights where csr: "csr_matrix (shape vertices ! 0) (coo weights) = Inr G"
    by (cases "edge_weights linalg_norm (rows vertices) es ew") auto
  from csr_matrix_positions [OF csr assms(2)]
  obtain r c w' where in_coo: "(r, c, w') \<in> set (coo weights)"
    and rc: "0 \<le> r" "0 \<le> c" "u = nat r" "v = nat c"
    by blast
  from rc uv have "nat r = nat c" by simp
  with rc(1,2) have "r = c" by simp
  moreover have "r \<noteq> c"
  proof (cases dir)
    case True
    with in_coo have "(r, c, w') \<in> set (map2 (\<lambda>e w. (e ! 0, e ! 1, w)) es weights)"
      by (simp add: coo_def)
    then show ?thesis unfolding es_def by (rule fwd_no_self_loop)
  next
    case False
    with in_coo have "(r, c, w') \<in> set (map2 (\<lambda>e w. (e ! 0, e ! 1, w)) es weights)
        \<or> (r, c, w') \<in> set (map2 (\<lambda>e w. (e ! 1, e ! 0, w)) es weights)"
      by (simp only: coo_def if_False set_append Un_iff)
    then show ?thesis
    proof
      assume "(r, c, w') \<in> set (map2 (\<lambda>e w. (e ! 0, e ! 1, w)) es weights)"
      then show ?thesis unfolding es_def by (rule fwd_no_self_loop)
    next
      assume "(r, c, w') \<in> set (map2 (\<lambda>e w. (e ! 1, e ! 0, w)) es weights)"
      then show ?thesis unfolding es_def by (rule bwd_no_self_loop)
    qed
  qed
  ultimately show False by simp
qed


lemma create_drop_self_loops_cong:
  assumes "ndim edges = 2 \<and> shape edges ! 1 = 2 \<and> ndim edges' = 2 \<and> shape edges' ! 1 = 2 \<and>
      drop_self_loops (rows edges') = drop_self_loops (rows edges)"
  shows "create_spatial_csgraph linalg_norm vertices edges' ew dir = create_spatial_csgraph linalg_norm vertices edges ew dir"
  unfolding create_spatial_csgraph_def Let_def
  using assms by (simp only:)

text \<open>
  C9 (as amended).  A vertex array that is not \<open>N \<times> K\<close> with \<open>K > 0\<close>, and an edge array that
  is not \<open>M \<times> 2\<close>, raise ValueError.  Self-loop edges do not make the call fail: they are
  filtered out of the edge list before the graph is built, so the result is that of the
  edge list without them, and a graph that is returned has no entry on the diagonal.
\<close>

theorem create_spatial_csgraph_shapes_self_loops:
  "(ndim vertices \<noteq> 2 \<or> shape vertices ! 1 < 1 \<longrightarrow>
      create_spatial_csgraph linalg_norm vertices edges ew dir
        = Inl (ValueError ''vertices must be a NxK array with K > 0''))
   \<and> (ndim vertices = 2 \<and> 1 \<le> shape vertices ! 1 \<and> (ndim edges \<noteq> 2 \<or> shape edges ! 1 \<noteq> 2) \<longrightarrow>
      create_spatial_csgraph linalg_norm vertices edges ew dir = Inl (ValueError ''edges must be a Mx2 array''))
   \<and> (create_spatial_csgraph linalg_norm vertices edges ew dir = Inr G \<longrightarrow>
      (\<forall>(u, v, w) \<in> set (entries G). u \<noteq> v))
   \<and> (ndim edges = 2 \<and> shape edges ! 1 = 2 \<and> ndim edges' = 2 \<and> shape edges' ! 1 = 2 \<and>
      drop_self_loops (rows edges') = drop_self_loops (rows edges) \<longrightarrow>
      create_spatial_csgraph linalg_norm vertices edges' ew dir = create_spatial_csgraph linalg_norm vertices edges ew dir)"
proof (intro conjI impI)
  assume "ndim vertices \<noteq> 2 \<or> shape vertices ! 1 < 1"
  then show "create_spatial_csgraph linalg_norm vertices edges ew dir
        = Inl (ValueError ''vertices must be a NxK array with K > 0'')"
    unfolding create_spatial_csgraph_def by (simp only: if_True)
next
  assume "ndim vertices = 2 \<and> 1 \<le> shape vertices ! 1 \<and> (ndim edges \<noteq> 2 \<or> shape edges ! 1 \<noteq> 2)"
  then have "\<not> (ndim vertices \<noteq> 2 \<or> shape vertices ! 1 < 1)" "ndim edges \<noteq> 2 \<or> shape edges ! 1 \<noteq> 2"
    by auto
  then show "create_spatial_csgraph linalg_norm vertices edges ew dir = Inl (ValueError ''edges must be a Mx2 array'')"
    unfolding create_spatial_csgraph_def by (simp only: if_True if_False)
next
  assume "create_spatial_csgraph linalg_norm vertices edges ew dir = Inr G"
  then show "\<forall>(u, v, w) \<in> set (entries G). u \<noteq> v"
    using create_no_diagonal by fast
next
  assume "ndim edges = 2 \<and> shape edges ! 1 = 2 \<and> ndim edges' = 2 \<and> shape edges' ! 1 = 2 \<and>
      drop_self_loops (rows edges') = drop_self_loops (rows edges)"
  then show "create_spatial_csgraph linalg_norm vertices edges' ew dir = create_spatial_csgraph linalg_norm vertices edges ew dir"
    by (rule create_drop_self_loops_cong)
qed

lemma rows_2x2: "rows (NDArray [2, 2] [a, b, c, d]) = [[a, b], [c, d]]"
  by (simp add: rows_def numeral_2_eq_2)

lemma create_example:
  "create_spatial_csgraph linalg_norm (NDArray [2, 2] [0, 0, 0, 1]) (NDArray [2, 2] [0, 0, 0, 1]) False False
      = Inr \<lparr>nv = 2, entries = [(0, 1, 1), (1, 0, 1)]\<rparr>"
  by (simp add: ndim_def rows_2x2 drop_self_loops_def create_spatial_csgraph_def edge_weights_def csr_matrix_def)

theorem create_spatial_csgraph_shapes_self_loops_witness:
  "create_spatial_csgraph (\<lambda>x. 1) (NDArray [2] [0, 1]) (NDArray [2, 2] [0, 0, 0, 1]) False False
      = Inl (ValueError ''vertices must be a NxK array with K > 0'')
   \<and> create_spatial_csgraph (\<lambda>x. 1) (NDArray [2, 2] [0, 0, 0, 1]) (NDArray [2, 3] [0, 1, 1, 1, 0, 0]) False False
      = Inl (ValueError ''edges must be a Mx2 array'')
   \<and> create_spatial_csgraph (\<lambda>x. 1) (NDArray [2, 2] [0, 0, 0, 1]) (NDArray [2, 2] [0, 0, 0, 1]) False False
      = Inr \<lparr>nv = 2, entries = [(0, 1, 1), (1, 0, 1)]\<rparr>
   \<and> list_all (\<lambda>(u, v, w). u \<noteq> v) [(0 :: nat, 1 :: nat, 1 :: int), (1, 0, 1)]
   \<and> create_spatial_csgraph (\<lambda>x. 1) (NDArray [2, 2] [0, 0, 0, 1]) (NDArray [2, 2] [0, 1, 1, 1]) False False
      = create_spatial_csgraph (\<lambda>x. 1) (NDArray [2, 2] [0, 0, 0, 1]) (NDArray [2, 2] [0, 0, 0, 1]) False False"
proof -
  note T = create_spatial_csgraph_shapes_self_loops
  have c1: "create_spatial_csgraph (\<lambda>x. 1) (NDArray [2] [0, 1]) (NDArray [2, 2] [0, 0, 0, 1]) False False
      = Inl (ValueError ''vertices must be a NxK array with K > 0'')"
    using T [where vertices = "NDArray [2] [0, 1]"] by (simp add: ndim_def)
  have c2: "create_spatial_csgraph (\<lambda>x. 1) (NDArray [2, 2] [0, 0, 0, 1]) (NDArray [2, 3] [0, 1, 1, 1, 0, 0]) False False
      = Inl (ValueError ''edges must be a Mx2 array'')"
    using T [where vertices = "NDArray [2, 2] [0, 0, 0, 1]" and edges = "NDArray [2, 3] [0, 1, 1, 1, 0, 0]"]
    by (simp add: ndim_def)
  have c3: "create_spatial_csgraph (\<lambda>x. 1) (NDArray [2, 2] [0, 0, 0, 1]) (NDArray [2, 2] [0, 0, 0, 1]) False False
      = Inr \<lparr>nv = 2, entries = [(0, 1, 1), (1, 0, 1)]\<rparr>"
    by (rule create_example)
  have c4: "list_all (\<lambda>(u, v, w). u \<noteq> v) [(0 :: nat, 1 :: nat, 1 :: int), (1, 0, 1)]"
    by simp
  have c5: "create_spatial_csgraph (\<lambda>x. 1) (NDArray [2, 2] [0, 0, 0, 1]) (NDArray [2, 2] [0, 1, 1, 1]) False False
      = create_spatial_csgraph (\<lambda>x. 1) (NDArray [2, 2] [0, 0, 0, 1]) (NDArray [2, 2] [0, 0, 0, 1]) False False"
    using T [where edges = "NDArray [2, 2] [0, 0, 0, 1]" and edges' = "NDArray [2, 2] [0, 1, 1, 1]"]
    by (simp add: ndim_def rows_2x2 drop_self_loops_def)
  from c1 c2 c3 c4 c5 show ?thesis by (intro conjI)
qed

theorem create_spatial_csgraph_self_loop_counterexample:
  "create_spatial_csgraph (\<lambda>x. 1) (NDArray [2, 2] [0, 0, 0, 1]) (NDArray [2, 2] [0, 0, 0, 1]) False False
      = Inr \<lparr>nv = 2, entries = [(0, 1, 1), (1, 0, 1)]\<rparr>"
  by (simp add: ndim_def rows_2x2 drop_self_loops_def create_spatial_csgraph_def edge_weights_def csr_matrix_def)

section \<open>Target selection when no valid vertex is away from the root\<close>

text \<open>
  C5, evaluated where it fails.  The graph is the single edge \<open>0 - 1\<close> of weight 1, the root
  is vertex 1 and only the root is valid.  The distances from the root are \<open>[1, 0]\<close>, so
  \<open>root_ds * valid\<close> is \<open>[0, 0]\<close> and the first maximal index is 0: the target is vertex 0,
  whose mask entry is False, and the path \<open>[0, 1]\<close> is recorded for it.
\<close>

theorem select_target_picks_invalid_vertex:
  "dijkstra bf_search \<lparr>nv = 2, entries = [(0, 1, 1), (1, 0, 1)]\<rparr> [1] PInf = Inr ([Fin 1, Fin 0], [1, - 9999], [1, 1])
   \<and> select_target [Fin 1, Fin 0] [False, True] = Inr 0
   \<and> [False, True] ! 0 = False
   \<and> graph_teasar_component bf_search (find_graph_root (\<lambda>G. replicate (nv G) True) bf_search)
        \<lparr>nv = 2, entries = [(0, 1, 1), (1, 0, 1)]\<rparr> (Some 1) (Some [False, True]) None None (Fin 10000) False
      = Some (Inr ([[0, 1]], [Fin 1], None))
   \<and> graph_teasar_component bf_search (find_graph_root (\<lambda>G. replicate (nv G) True) bf_search)
        \<lparr>nv = 2, entries = [(0, 1, 1), (1, 0, 1)]\<rparr> None (Some [False, True]) None None (Fin 10000) False
      = Some (Inr ([[0, 1]], [Fin 1], None))"
  by code_simp

section \<open>\<open>find_far_points_graph\<close>: the start has nothing farther\<close>

lemma argmax_from_range:
  "argmax_from xs i j b = j \<or> (i \<le> argmax_from xs i j b \<and> argmax_from xs i j b < i + length xs)"
proof (induction xs arbitrary: i j b)
  case Nil
  show ?case by simp
next
  case (Cons x xs)
  show ?case
  proof (cases "b < x")
    case True
    with Cons.IH [of "Suc i" i x] show ?thesis by auto
  next
    case False
    with Cons.IH [of "Suc i" j b] show ?thesis by auto
  qed
qed

lemma argmax_less_length:
  assumes "argmax xs = Inr k"
  shows "k < length xs"
proof (cases xs)
  case Nil
  with assms show ?thesis by (simp add: argmax_def)
next
  case (Cons x ys)
  with assms have "k = argmax_from ys 1 0 x" by (simp add: argmax_def)
  with argmax_from_range [of ys 1 0 x] Cons show ?thesis by auto
qed

lemma argmax_nonempty:
  "xs \<noteq> [] \<Longrightarrow> \<exists>k. argmax xs = Inr k"
  by (cases xs) (simp_all add: argmax_def)

text \<open>
  C7 (as amended).  Let \<open>start\<close> be the first valid vertex and let the search from it put
  no valid vertex at a positive distance, finite or infinite.  Then the loop stops after
  its first query: \<open>find_far_points_graph\<close> returns \<open>start\<close> as best root and as far vertex
  with \<open>max_distance = 0\<close>, and the counter of queries is 1.
\<close>

theorem find_far_points_graph_nothing_farther:
  assumes "first_true_from valid_mask 0 = Inr start"
    and "dijkstra orc G [int start] PInf = Inr (ds, pr, so)"
    and "length ds = length valid_mask"
    and "\<forall>v<length ds. valid_mask ! v \<longrightarrow> ds ! v \<le> Fin 0"
  shows "\<exists>st. far_points_run orc G (Some valid_mask) = Some (Inr st) \<and> queries st = 1 \<and>
           max_observed_distance st = Fin 0 \<and> best_root st = int start \<and> current_root st = int start \<and>
           find_far_points_graph orc G (Some valid_mask)
             = Some (Inr (int start, int start, best_pred st, Fin 0, dist_to_root st))"
proof -
  define st0 where "st0 = \<lparr>best_root = int start, current_root = int start, max_observed_distance = Fin 0,
            best_pred = None, dist_to_root = None, queries = 0\<rparr>"
  define dtc where "dtc = map2 (\<lambda>d b. if b then Fin (- 1) else d) ds (map Not valid_mask)"
  have ma: "mask_assign ds (map Not valid_mask) (Fin (- 1)) = Inr dtc"
    using assms(3) by (simp add: mask_assign_def dtc_def)
  have len: "length dtc = length ds"
    using assms(3) by (simp add: dtc_def)
  have nonempty: "dtc \<noteq> []"
  proof
    assume "dtc = []"
    with len assms(3) have "valid_mask = []" by simp
    with assms(1) show False by simp
  qed
  then obtain far where far: "argmax dtc = Inr far"
    using argmax_nonempty by blast
  then have "far < length dtc" by (rule argmax_less_length)
  with len assms(3) have far_lt: "far < length ds" "far < length valid_mask" by simp_all
  have entry: "dtc ! far = (if valid_mask ! far then ds ! far else Fin (- 1))"
    using far_lt by (simp add: dtc_def)
  have "dtc ! far \<le> Fin 0"
  proof (cases "valid_mask ! far")
    case True
    with assms(4) far_lt entry show ?thesis by simp
  next
    case False
    with entry show ?thesis by simp
  qed
  then have stop: "\<not> Fin 0 < dtc ! far" by (simp add: not_less)
  have cur: "current_root st0 = int start" "max_observed_distance st0 = Fin 0"
    by (simp_all add: st0_def)
  have loop: "far_loop orc G valid_mask st0 = Some (Inr (st0\<lparr>queries := Suc (queries st0)\<rparr>))"
    by (subst far_loop.simps) (simp add: cur assms(2) ma far stop)
  have run: "far_points_run orc G (Some valid_mask) = Some (Inr (st0\<lparr>queries := Suc (queries st0)\<rparr>))"
    using loop by (simp add: far_points_run_def assms(1) st0_def)
  show ?thesis
    by (rule exI [of _ "st0\<lparr>queries := Suc (queries st0)\<rparr>"])
      (simp add: run find_far_points_graph_def ok_def, simp add: st0_def)
qed

lemma single_vertex_search:
  "dijkstra bf_search \<lparr>nv = 1, entries = []\<rparr> [0] PInf = Inr ([Fin 0], [- 9999], [0])"
  by code_simp

theorem find_far_points_graph_nothing_farther_witness:
  "first_true_from [True] 0 = Inr 0
   \<and> dijkstra bf_search \<lparr>nv = 1, entries = []\<rparr> [int 0] PInf = Inr ([Fin 0], [- 9999], [0])
   \<and> length [Fin 0] = length [True]
   \<and> list_all (\<lambda>v. [Fin 0] ! v \<le> Fin 0) [0..<1]
   \<and> (\<exists>st. far_points_run bf_search \<lparr>nv = 1, entries = []\<rparr> (Some [True]) = Some (Inr st) \<and> queries st = 1 \<and>
           max_observed_distance st = Fin 0 \<and> best_root st = 0 \<and> current_root st = 0 \<and>
           find_far_points_graph bf_search \<lparr>nv = 1, entries = []\<rparr> (Some [True])
             = Some (Inr (0, 0, best_pred st, Fin 0, dist_to_root st)))"
proof -
  have h1: "first_true_from [True] 0 = Inr 0" by simp
  have h2: "dijkstra bf_search \<lparr>nv = 1, entries = []\<rparr> [int 0] PInf = Inr ([Fin 0], [- 9999], [0])"
    using single_vertex_search by simp
  have h3: "length [Fin 0] = length [True]" by simp
  have h4: "\<forall>v<length [Fin 0]. [True] ! v \<longrightarrow> [Fin 0] ! v \<le> Fin 0" by simp
  from find_far_points_graph_nothing_farther [OF h1 h2 h3 h4] h1 h2 show ?thesis
    by simp
qed

text \<open>
  The claim as stated fails twice.  With two valid vertices and no edge, no valid vertex
  is at a positive finite distance from the start, yet the unreachable vertex is taken as
  the farthest one: the loop makes a second query and returns \<open>max_distance = inf\<close>.  And
  on a single vertex the loop does stop after one query with \<open>max_distance = 0\<close>, but the
  predecessor and distance arrays it returns are \<open>None\<close>.
\<close>

theorem find_far_points_graph_counterexample:
  "far_points_run bf_search \<lparr>nv = 2, entries = []\<rparr> (Some [True, True])
     = Some (Inr \<lparr>best_root = 0, current_root = 1, max_observed_distance = PInf,
          best_pred = Some [- 9999, - 9999], dist_to_root = Some [Fin 0, PInf], queries = 2\<rparr>)
   \<and> dijkstra bf_search \<lparr>nv = 2, entries = []\<rparr> [0] PInf = Inr ([Fin 0, PInf], [- 9999, - 9999], [0, - 9999])
   \<and> find_far_points_graph bf_search \<lparr>nv = 1, entries = []\<rparr> (Some [True])
     = Some (Inr (0, 0, None, Fin 0, None))"
  by code_simp

section \<open>The check of the mask length\<close>

text \<open>
  When the caller supplies the root, a mask whose length is not the number of vertices
  raises the mask-length ValueError: at once if \<open>root_ds\<close> is supplied too, and after the
  search from the root (whose error comes first if it fails) if it is not.  When the caller
  supplies no root, the root finder runs before the check, and its error is the error of
  the call.
\<close>

lemma mask_length_with_root:
  assumes "length v \<noteq> nv G"
  shows "graph_teasar_component orc find_root_func G (Some r) (Some v) (Some rds) rp invalidation_d return_map
           = Some (Inl (ValueError ''valid must be length of vertices''))
     \<and> graph_teasar_component orc find_root_func G (Some r) (Some v) None rp invalidation_d return_map
           = (case dijkstra orc G [r] PInf of Inl e \<Rightarrow> Some (Inl e)
              | Inr res \<Rightarrow> Some (Inl (ValueError ''valid must be length of vertices'')))
     \<and> (find_root_func G (Some v) = Some (Inl e) \<longrightarrow>
          graph_teasar_component orc find_root_func G None (Some v) rds_opt rp invalidation_d return_map
            = Some (Inl e))"
proof (intro conjI impI)
  show "graph_teasar_component orc find_root_func G (Some r) (Some v) (Some rds) rp invalidation_d return_map
           = Some (Inl (ValueError ''valid must be length of vertices''))"
    using assms by (simp add: graph_teasar_component_def teasar_prelude_def raise_def)
next
  show "graph_teasar_component orc find_root_func G (Some r) (Some v) None rp invalidation_d return_map
           = (case dijkstra orc G [r] PInf of Inl e \<Rightarrow> Some (Inl e)
              | Inr res \<Rightarrow> Some (Inl (ValueError ''valid must be length of vertices'')))"
  proof (cases "dijkstra orc G [r] PInf")
    case (Inl e)
    then show ?thesis
      by (simp add: graph_teasar_component_def teasar_prelude_def)
  next
    case (Inr res)
    obtain ds pr so where "res = (ds, pr, so)" by (cases res) auto
    with Inr assms show ?thesis
      by (simp add: graph_teasar_component_def teasar_prelude_def raise_def)
  qed
next
  assume "find_root_func G (Some v) = Some (Inl e)"
  then show "graph_teasar_component orc find_root_func G None (Some v) rds_opt rp invalidation_d return_map
            = Some (Inl e)"
    by (simp add: graph_teasar_component_def teasar_prelude_def)
qed

text \<open>
  C8.  The check of the mask length (line 89) comes after the root finder (line 75) and the
  search from the root (line 80).  On the graph with two vertices and one edge, the call
  with no root and the mask \<open>[True]\<close> goes into \<open>find_graph_root\<close>, which makes a search from
  vertex 0 and then indexes the two distances with the one-entry mask: the call raises
  IndexError, not the ValueError that the docstring of \<open>graph_teasar_component\<close> gives for a
  mask of the wrong length.  The same mask with the root supplied raises that ValueError.
\<close>

theorem graph_teasar_component_short_mask_index_error:
  "length [True] \<noteq> nv \<lparr>nv = 2, entries = [(0, 1, 1), (1, 0, 1)]\<rparr>
   \<and> graph_teasar_component bf_search (find_graph_root (\<lambda>G. replicate (nv G) True) bf_search)
        \<lparr>nv = 2, entries = [(0, 1, 1), (1, 0, 1)]\<rparr> None (Some [True]) None None (Fin 10000) False
      = Some (Inl IndexError)
   \<and> graph_teasar_component bf_search (find_graph_root (\<lambda>G. replicate (nv G) True) bf_search)
        \<lparr>nv = 2, entries = [(0, 1, 1), (1, 0, 1)]\<rparr> (Some 0) (Some [True]) None None (Fin 10000) False
      = Some (Inl (ValueError ''valid must be length of vertices''))"
  by code_simp

section \<open>Coverage\<close>

text \<open>
  C1.  Take a graph with non-negative weights, an exact shortest-path search, and a call of
  \<open>graph_teasar_component\<close> whose prelude has settled on a root \<open>r\<close> that is a vertex and on
  the initial mask \<open>valid st0\<close> (the prelude returns only if every valid vertex is at a finite
  distance from the root).  If the call returns the paths \<open>ps\<close>, then every vertex that was
  valid initially is joined to some vertex of some path of \<open>ps\<close> by a walk of cost at most
  \<open>invalidation_d\<close>; a vertex of a path is joined to itself at cost 0.
\<close>

theorem graph_teasar_component_coverage:
  assumes E: "exact_search G orc" and W: "wf_graph G"
    and pre: "teasar_prelude orc frf G root_opt valid_opt rds_opt rp_opt = Some (Inr (rds, rp, st0))"
    and r: "visited_nodes st0 = [int r]" "r < nv G"
    and run: "graph_teasar_component orc frf G root_opt valid_opt rds_opt rp_opt inv_d rm
                = Some (Inr (ps, ls, m))"
  shows "\<forall>v<nv G. valid st0 ! v \<longrightarrow> covered G ps inv_d v"
proof -
  from component_okD [OF run] pre obtain fin where
    lp: "teasar_loop orc G rds rp inv_d rm st0 = Some (Inr fin)" and ps: "ps = paths fin"
    by auto
  from loop_reachable [OF lp] have re: "reachable orc G rds rp inv_d rm st0 fin"
    and nv: "\<not> list_ex id (valid fin)" by blast+
  from prelude_char [OF pre] have L: "length rds = nv G" by simp
  note S0 = prelude_wf_state [OF pre r]
  from reachable_wf [OF E W L S0 re] have "length (valid fin) = nv G"
    by (simp add: wf_state_def)
  with nv have none: "\<forall>v<nv G. \<not> valid fin ! v" by (simp add: list_ex_id_iff)
  from reachable_covered [OF E W L S0 re] none show ?thesis
    unfolding ps by blast
qed

theorem graph_teasar_component_coverage_witness:
  "exact_search tee bf_search \<and> wf_graph tee
   \<and> teasar_prelude bf_search no_root tee (Some 0) None None None = Some (Inr (tee_rds, Some tee_rp, tee_st0))
   \<and> visited_nodes tee_st0 = [int 0] \<and> 0 < nv tee
   \<and> graph_teasar_component bf_search no_root tee (Some 0) None None None (Fin 1) True
       = Some (Inr ([[1, 0], [3, 2, 0]], [Fin 10, Fin 6], Some [Some 0, Some 1, Some 2, Some 3]))
   \<and> valid tee_st0 = [False, True, True, True]
   \<and> covered tee [[1, 0], [3, 2, 0]] (Fin 1) 1
   \<and> covered tee [[1, 0], [3, 2, 0]] (Fin 1) 2
   \<and> covered tee [[1, 0], [3, 2, 0]] (Fin 1) 3"
proof -
  note all = graph_teasar_component_coverage [OF tee_exact tee_wf tee_prelude tee_root tee_run, rule_format]
  have c1: "covered tee [[1, 0], [3, 2, 0]] (Fin 1) 1"
    by (rule all) (simp_all add: tee_def tee_st0_def)
  have c2: "covered tee [[1, 0], [3, 2, 0]] (Fin 1) 2"
    by (rule all) (simp_all add: tee_def tee_st0_def)
  have c3: "covered tee [[1, 0], [3, 2, 0]] (Fin 1) 3"
    by (rule all) (simp_all add: tee_def tee_st0_def)
  have v: "valid tee_st0 = [False, True, True, True]" by (simp add: tee_st0_def)
  from tee_exact tee_wf tee_prelude tee_root tee_run v c1 c2 c3 show ?thesis
    by blast
qed

section \<open>The recorded paths\<close>

text \<open>
  C3.  Under the same conditions, the call returns as many lengths as paths, and every
  returned path with its length is a \<open>good_path\<close>: its entries are vertices, every two
  consecutive entries are joined by an edge of the graph, and the recorded length is the
  distance in the graph from the first entry (the target) to the last (the branch point),
  that is the cost of a walk between them that no walk between them undercuts.
\<close>

theorem graph_teasar_component_paths:
  assumes E: "exact_search G orc" and W: "wf_graph G"
    and pre: "teasar_prelude orc frf G root_opt valid_opt rds_opt rp_opt = Some (Inr (rds, rp, st0))"
    and r: "visited_nodes st0 = [int r]" "r < nv G"
    and run: "graph_teasar_component orc frf G root_opt valid_opt rds_opt rp_opt inv_d rm
                = Some (Inr (ps, ls, m))"
  shows "list_all2 (good_path G) ps ls"
proof -
  from component_okD [OF run] pre obtain fin where
    lp: "teasar_loop orc G rds rp inv_d rm st0 = Some (Inr fin)"
    and ps: "ps = paths fin" "ls = path_lengths fin"
    by auto
  from loop_reachable [OF lp] have re: "reachable orc G rds rp inv_d rm st0 fin" by blast
  from prelude_char [OF pre] have L: "length rds = nv G"
    and P0: "paths st0 = []" "path_lengths st0 = []" by simp_all
  note S0 = prelude_wf_state [OF pre r]
  from reachable_paths [OF E W L S0 P0 re] show ?thesis
    unfolding ps .
qed

theorem graph_teasar_component_paths_witness:
  "exact_search tee bf_search \<and> wf_graph tee
   \<and> teasar_prelude bf_search no_root tee (Some 0) None None None = Some (Inr (tee_rds, Some tee_rp, tee_st0))
   \<and> visited_nodes tee_st0 = [int 0] \<and> 0 < nv tee
   \<and> graph_teasar_component bf_search no_root tee (Some 0) None None None (Fin 1) True
       = Some (Inr ([[1, 0], [3, 2, 0]], [Fin 10, Fin 6], Some [Some 0, Some 1, Some 2, Some 3]))
   \<and> list_all2 (good_path tee) [[1, 0], [3, 2, 0]] [Fin 10, Fin 6]"
  using graph_teasar_component_paths [OF tee_exact tee_wf tee_prelude tee_root tee_run]
    tee_exact tee_wf tee_prelude tee_root tee_run
  by blast

section \<open>The mask shrinks until it is empty\<close>



section \<open>The radius of the search from the target\<close>



section \<open>The map records the nearest path vertex\<close>

text \<open>
  C6.  Take a graph with non-negative weights, an exact search, a root that is a vertex, and
  a call with \<open>return_map = True\<close>.  In every state \<open>st\<close> the loop reaches, the map arrays are
  \<open>map_exact\<close>: for each vertex the recorded distance is finite exactly when some vertex of
  the paths recorded so far (the sources of all the sweeps made so far) is within
  \<open>invalidation_d\<close> of it, it is then the distance to the nearest of them, and the recorded
  source is one of them at that distance.  In the next iteration no recorded distance grows,
  and an entry whose distance stays the same keeps its source: an entry is overwritten only
  with a strictly smaller distance.
\<close>

theorem graph_teasar_component_map_nearest:
  assumes E: "exact_search G orc" and W: "wf_graph G"
    and pre: "teasar_prelude orc frf G root_opt valid_opt rds_opt rp_opt = Some (Inr (rds, rp, st0))"
    and r: "visited_nodes st0 = [int r]" "r < nv G"
    and re: "reachable orc G rds rp inv_d True st0 st"
  shows "map_exact G inv_d st \<and>
         (\<forall>st'. list_ex id (valid st) \<and> teasar_iteration orc G rds rp inv_d True st = Some (Inr st') \<longrightarrow>
            (\<forall>v<nv G. mesh_to_skeleton_dist st' ! v \<le> mesh_to_skeleton_dist st ! v \<and>
               (mesh_to_skeleton_dist st' ! v = mesh_to_skeleton_dist st ! v \<longrightarrow>
                  mesh_to_skeleton_map st' ! v = mesh_to_skeleton_map st ! v)))"
proof -
  from prelude_char [OF pre] have L: "length rds = nv G" and P0: "paths st0 = []"
    and D0: "mesh_to_skeleton_dist st0 = replicate (nv G) PInf"
      "mesh_to_skeleton_map st0 = replicate (nv G) None"
    by simp_all
  note S0 = prelude_wf_state [OF pre r]
  from reachable_wf [OF E W L S0 re] have S: "wf_state G st" .
  from reachable_map [OF E W L S0 P0 D0 re] have M: "map_exact G inv_d st" .
  have "\<forall>st'. list_ex id (valid st) \<and> teasar_iteration orc G rds rp inv_d True st = Some (Inr st') \<longrightarrow>
            (\<forall>v<nv G. mesh_to_skeleton_dist st' ! v \<le> mesh_to_skeleton_dist st ! v \<and>
               (mesh_to_skeleton_dist st' ! v = mesh_to_skeleton_dist st ! v \<longrightarrow>
                  mesh_to_skeleton_map st' ! v = mesh_to_skeleton_map st ! v))"
  proof (rule allI, rule impI)
    fix st' assume "list_ex id (valid st) \<and> teasar_iteration orc G rds rp inv_d True st = Some (Inr st')"
    then have it: "teasar_iteration orc G rds rp inv_d True st = Some (Inr st')" by blast
    from step_map [OF E W L S M it]
    show "\<forall>v<nv G. mesh_to_skeleton_dist st' ! v \<le> mesh_to_skeleton_dist st ! v \<and>
               (mesh_to_skeleton_dist st' ! v = mesh_to_skeleton_dist st ! v \<longrightarrow>
                  mesh_to_skeleton_map st' ! v = mesh_to_skeleton_map st ! v)" by blast
  qed
  with M show ?thesis by blast
qed

theorem graph_teasar_component_map_nearest_witness:
  "exact_search tee bf_search \<and> wf_graph tee
   \<and> teasar_prelude bf_search no_root tee (Some 0) None None None = Some (Inr (tee_rds, Some tee_rp, tee_st0))
   \<and> visited_nodes tee_st0 = [int 0] \<and> 0 < nv tee
   \<and> reachable bf_search tee tee_rds (Some tee_rp) (Fin 1) True tee_st0 tee_st1
   \<and> list_ex id (valid tee_st1)
   \<and> teasar_iteration bf_search tee tee_rds (Some tee_rp) (Fin 1) True tee_st1 = Some (Inr tee_st2)
   \<and> map_exact tee (Fin 1) tee_st1
   \<and> mesh_to_skeleton_dist tee_st2 ! 2 \<le> mesh_to_skeleton_dist tee_st1 ! 2
   \<and> mesh_to_skeleton_dist tee_st1 ! 2 = Fin 1 \<and> mesh_to_skeleton_map tee_st1 ! 2 = Some 0
   \<and> mesh_to_skeleton_dist tee_st2 ! 2 = Fin 0 \<and> mesh_to_skeleton_map tee_st2 ! 2 = Some 2"
proof -
  have V: "list_ex id (valid tee_st1)" by (simp add: tee_st1_def)
  note main = graph_teasar_component_map_nearest [OF tee_exact tee_wf tee_prelude tee_root tee_reach1]
  from main have M: "map_exact tee (Fin 1) tee_st1" by blast
  have n: "2 < nv tee" by (simp add: tee_def)
  from main V tee_step2 n
  have le: "mesh_to_skeleton_dist tee_st2 ! 2 \<le> mesh_to_skeleton_dist tee_st1 ! 2" by blast
  have vals: "mesh_to_skeleton_dist tee_st1 ! 2 = Fin 1" "mesh_to_skeleton_map tee_st1 ! 2 = Some 0"
    "mesh_to_skeleton_dist tee_st2 ! 2 = Fin 0" "mesh_to_skeleton_map tee_st2 ! 2 = Some 2"
    by (simp_all add: tee_st1_def tee_st2_def)
  from tee_exact tee_wf tee_prelude tee_root tee_reach1 V tee_step2 M le vals show ?thesis
    by (intro conjI)
qed

section \<open>Visited vertices are invalid\<close>




end
